theory Spec2Isabelle
  imports Main "HOL-Library.Monad_Syntax"
begin

section \<open>Data model\<close>

text \<open>
  The reducer of \<^verbatim>\<open>packages/states/src/ripples/reducer.ts\<close> works on JavaScript
  objects: the state is an array object whose entries are references to ripple objects,
  \<^verbatim>\<open>enteredRipple\<close> compares references (\<^verbatim>\<open>r === ripple\<close>), and every transition
  either returns the very array it was given or builds a new one with \<^verbatim>\<open>slice\<close>,
  \<^verbatim>\<open>map\<close> or a spread. The model therefore has an explicit store. A reference is an
  index into the store; allocating appends to the store, so a new object never has the
  address of an old one.
\<close>

type_synonym addr = nat

text \<open>The identity of a DOM element (\<^verbatim>\<open>event.target\<close>, \<^verbatim>\<open>event.currentTarget\<close>).\<close>

type_synonym element = nat

text \<open>
  \<^verbatim>\<open>RippleState\<close> (declared in \<^verbatim>\<open>types.d\<close>): the fields the reducer reads or writes.
  \<^verbatim>\<open>startTime\<close> is a \<^verbatim>\<open>Date.now()\<close> reading, a whole number of milliseconds. The
  geometry the renderer needs lives in the extension part of the record, which the
  object spreads \<^verbatim>\<open>{...ripple, ...}\<close> carry over untouched.
\<close>

record RippleState =
  startTime :: int
  holding :: bool
  entered :: bool
  exiting :: bool
  mounted :: bool
  type :: string

text \<open>
  \<^verbatim>\<open>RippleEvent\<close>: the reducer itself never looks inside the event, it hands it to the
  helpers of \<^verbatim>\<open>./utils\<close>. Only the two element references that decide whether the
  event bubbled are named; everything else is the extension part.
\<close>

record RippleEvent =
  target :: element
  currentTarget :: element

datatype 'p obj = Ripple "'p RippleState_scheme" | Array "addr list"

type_synonym 'p heap = "'p obj list"

subsection \<open>The store\<close>

definition ripple_at :: "'p heap \<Rightarrow> addr \<Rightarrow> 'p RippleState_scheme option" where
  "ripple_at h a =
     (if a < length h then (case h ! a of Ripple r \<Rightarrow> Some r | Array xs \<Rightarrow> None) else None)"

definition array_at :: "'p heap \<Rightarrow> addr \<Rightarrow> addr list option" where
  "array_at h a =
     (if a < length h then (case h ! a of Ripple r \<Rightarrow> None | Array xs \<Rightarrow> Some xs) else None)"

definition alloc :: "'p heap \<Rightarrow> 'p obj \<Rightarrow> 'p heap \<times> addr" where
  "alloc h x = (h @ [x], length h)"

text \<open>
  \<^verbatim>\<open>RipplesState = RippleState[]\<close>: reading the entries of a typed array. The result is
  \<open>None\<close> when an entry is not a ripple object, which the type excludes.
\<close>

fun ripples_of :: "'p heap \<Rightarrow> addr list \<Rightarrow> 'p RippleState_scheme list option" where
  "ripples_of h [] = Some []"
| "ripples_of h (a # as) =
     (case ripple_at h a of
        None \<Rightarrow> None
      | Some r \<Rightarrow> map_option ((#) r) (ripples_of h as))"

text \<open>The snapshot the renderer reads: the ripples of the array at \<open>state\<close>, in order.\<close>

definition snapshot :: "'p heap \<Rightarrow> addr \<Rightarrow> 'p RippleState_scheme list option" where
  "snapshot h state = do { xs \<leftarrow> array_at h state; ripples_of h xs }"

subsection \<open>Array primitives\<close>

text \<open>\<^verbatim>\<open>Array.prototype.findIndex\<close>; \<open>None\<close> stands for the result \<^verbatim>\<open>-1\<close>.\<close>

fun findIndex :: "('a \<Rightarrow> bool) \<Rightarrow> 'a list \<Rightarrow> nat option" where
  "findIndex P [] = None"
| "findIndex P (x # xs) = (if P x then Some 0 else map_option Suc (findIndex P xs))"

text \<open>\<^verbatim>\<open>state.slice()\<close>: a new array object with the same entries.\<close>

definition slice :: "'p heap \<Rightarrow> addr \<Rightarrow> ('p heap \<times> addr) option" where
  "slice h a = map_option (\<lambda>xs. alloc h (Array xs)) (array_at h a)"

text \<open>
  \<^verbatim>\<open>nextState[i] = v\<close>, an update of the array object in place. JavaScript would extend
  the array when \<open>i\<close> is past its end; the reducer only stores at an index that
  \<^verbatim>\<open>findIndex\<close> returned, and the model has no result for the other case.
\<close>

definition store_index :: "'p heap \<Rightarrow> addr \<Rightarrow> nat \<Rightarrow> addr \<Rightarrow> 'p heap option" where
  "store_index h a i v =
     (case array_at h a of
        None \<Rightarrow> None
      | Some ys \<Rightarrow> if i < length ys then Some (h[a := Array (ys[i := v])]) else None)"

text \<open>\<^verbatim>\<open>nextState.splice(i, n)\<close>, in place; the removed entries are not used.\<close>

definition splice :: "'p heap \<Rightarrow> addr \<Rightarrow> nat \<Rightarrow> nat \<Rightarrow> 'p heap option" where
  "splice h a i n =
     map_option (\<lambda>ys. h[a := Array (take i ys @ drop (i + n) ys)]) (array_at h a)"

text \<open>The objects a \<^verbatim>\<open>map\<close> callback creates, one after the other.\<close>

fun alloc_list :: "'p heap \<Rightarrow> 'p obj list \<Rightarrow> 'p heap \<times> addr list" where
  "alloc_list h [] = (h, [])"
| "alloc_list h (x # xs) =
     (let (h1, a) = alloc h x; (h2, as) = alloc_list h1 xs in (h2, a # as))"

section \<open>The helpers of \<^verbatim>\<open>./utils\<close>\<close>

text \<open>
  \<^verbatim>\<open>isRippleable\<close>, \<^verbatim>\<open>getType\<close> and the geometry that \<^verbatim>\<open>createRippleState\<close> derives
  from the event are not among the sources; they are parameters of the model.
\<close>

record ('e, 'p) utils =
  isRippleable :: "'e RippleEvent_scheme \<Rightarrow> bool \<Rightarrow> bool"
  getType :: "'e RippleEvent_scheme \<Rightarrow> string"
  geometry :: "'e RippleEvent_scheme \<Rightarrow> 'p"

text \<open>
  Modelled from the spec: \<^verbatim>\<open>isBubbled\<close> of \<^verbatim>\<open>./utils\<close> is not among the sources. The
  spec: it "returns true if the event's nominal target differs from the element that
  owns the ripple surface".
\<close>

definition isBubbled :: "'e RippleEvent_scheme \<Rightarrow> bool" where
  "isBubbled event = (target event \<noteq> currentTarget event)"

text \<open>
  Modelled from the spec: \<^verbatim>\<open>createRippleState\<close> of \<^verbatim>\<open>./utils\<close> is not among the
  sources. The spec: it "builds a new Ripple with \<^verbatim>\<open>startTime = now()\<close>,
  \<^verbatim>\<open>holding = true\<close>, \<^verbatim>\<open>entered = false\<close>, \<^verbatim>\<open>exiting = false\<close>, \<^verbatim>\<open>mounted = true\<close>,
  plus positional data extracted from the event"; the modality is among the fields
  "derived from the triggering event". This gives the fields of the new object; the
  caller allocates it.
\<close>

definition createRippleState ::
  "('e, 'p) utils \<Rightarrow> int \<Rightarrow> 'e RippleEvent_scheme \<Rightarrow> 'p RippleState_scheme" where
  "createRippleState U now event =
     \<lparr>startTime = now, holding = True, entered = False, exiting = False, mounted = True,
      type = getType U event, \<dots> = geometry U event\<rparr>"

section \<open>The transitions\<close>

text \<open>
  Every transition takes the store and the reference of the state array and returns the
  new store and the reference of the array it returns. \<open>now\<close> is the reading of
  \<^verbatim>\<open>Date.now()\<close> during the call. The result is \<open>None\<close> only where the store does not
  hold what the TypeScript types promise: the state is not an array of ripple objects.
\<close>

definition CREATE :: string where "CREATE = ''CREATE''"
definition CANCEL :: string where "CANCEL = ''CANCEL''"
definition RELEASE :: string where "RELEASE = ''RELEASE''"
definition ENTERED :: string where "ENTERED = ''ENTERED''"
definition REMOVE :: string where "REMOVE = ''REMOVE''"

text \<open>
  An action object: its \<^verbatim>\<open>type\<close> tag and the fields of the five action interfaces. A
  field that an interface does not have is never read for an action of its type.
\<close>

record 'e action =
  action_type :: string
  action_event :: "'e RippleEvent_scheme"
  action_disableSpacebarClick :: bool
  action_ease :: bool
  action_ripple :: addr

text \<open>
  \<^verbatim>\<open>createRippleAction\<close>. The event is copied field by field; \<^verbatim>\<open>ease\<close> and \<^verbatim>\<open>ripple\<close> are
  not fields of a \<^verbatim>\<open>CreateAction\<close> and hold values nothing reads.
\<close>

definition createRippleAction :: "'e RippleEvent_scheme \<Rightarrow> bool \<Rightarrow> 'e action" where
  "createRippleAction event disableSpacebarClick =
     \<lparr>action_type = CREATE,
      action_event =
        \<lparr>target = target event, currentTarget = currentTarget event,
         \<dots> = RippleEvent.more event\<rparr>,
      action_disableSpacebarClick = disableSpacebarClick,
      action_ease = False,
      action_ripple = 0\<rparr>"

definition createRipple ::
  "('e, 'p) utils \<Rightarrow> int \<Rightarrow> 'p heap \<Rightarrow> addr \<Rightarrow> 'e RippleEvent_scheme \<Rightarrow> bool
     \<Rightarrow> ('p heap \<times> addr) option" where
  "createRipple U now h state event disableSpacebarClick =
     (if \<not> isRippleable U event disableSpacebarClick \<or> isBubbled event then Some (h, state)
      else do {
        xs \<leftarrow> array_at h state;
        rs \<leftarrow> ripples_of h xs;
        if getType U event \<noteq> ''touch'' \<and> find (\<lambda>r. type r = ''touch'') rs \<noteq> None
        then Some (h, state)
        else do {
          let (h1, ripple) = alloc h (Ripple (createRippleState U now event));
          Some (alloc h1 (Array (xs @ [ripple])))
        }
      })"

definition enteredRipple ::
  "int \<Rightarrow> 'p heap \<Rightarrow> addr \<Rightarrow> addr \<Rightarrow> ('p heap \<times> addr) option" where
  "enteredRipple now h state ripple = do {
     xs \<leftarrow> array_at h state;
     case findIndex (\<lambda>r. r = ripple) xs of
       None \<Rightarrow> Some (h, state)
     | Some i \<Rightarrow> do {
         r \<leftarrow> ripple_at h ripple;
         if exiting r then Some (h, state)
         else do {
           (h1, nextState) \<leftarrow> slice h state;
           let exiting' = (\<not> holding r \<or> now - startTime r > 300);
           let (h2, a) = alloc h1 (Ripple (r\<lparr>exiting := exiting', entered := True\<rparr>));
           h3 \<leftarrow> store_index h2 nextState i a;
           Some (h3, nextState)
         }
       }
   }"

definition releaseRipple :: "int \<Rightarrow> 'p heap \<Rightarrow> addr \<Rightarrow> ('p heap \<times> addr) option" where
  "releaseRipple now h state = do {
     xs \<leftarrow> array_at h state;
     rs \<leftarrow> ripples_of h xs;
     case findIndex (\<lambda>r. holding r \<and> \<not> exiting r) rs of
       None \<Rightarrow> Some (h, state)
     | Some i \<Rightarrow> do {
         let ripple = rs ! i;
         let exiting' = (entered ripple \<or> now - startTime ripple > 300);
         (h1, nextState) \<leftarrow> slice h state;
         let (h2, a) = alloc h1 (Ripple (ripple\<lparr>exiting := exiting', holding := False\<rparr>));
         h3 \<leftarrow> store_index h2 nextState i a;
         Some (h3, nextState)
       }
   }"

text \<open>
  The callback reads \<^verbatim>\<open>ripple.startTime\<close>. Where the object at \<open>ripple\<close> is no ripple it
  has no such property: the read gives \<^verbatim>\<open>undefined\<close> (here \<open>None\<close>), and no number is
  \<^verbatim>\<open>===\<close> to it, so nothing matches.
\<close>

definition removeRipple :: "'p heap \<Rightarrow> addr \<Rightarrow> addr \<Rightarrow> ('p heap \<times> addr) option" where
  "removeRipple h state ripple = do {
     xs \<leftarrow> array_at h state;
     rs \<leftarrow> ripples_of h xs;
     case findIndex (\<lambda>r. Some (startTime r) = map_option startTime (ripple_at h ripple)) rs of
       None \<Rightarrow> Some (h, state)
     | Some i \<Rightarrow> do {
         (h1, nextState) \<leftarrow> slice h state;
         h2 \<leftarrow> splice h1 nextState i 1;
         Some (h2, nextState)
       }
   }"

definition cancelRipples :: "'p heap \<Rightarrow> addr \<Rightarrow> bool \<Rightarrow> ('p heap \<times> addr) option" where
  "cancelRipples h state ease =
     (if ease then do {
        xs \<leftarrow> array_at h state;
        rs \<leftarrow> ripples_of h xs;
        let (h1, ys) = alloc_list h
          (map (\<lambda>r. Ripple (r\<lparr>exiting := True, mounted := True, holding := False\<rparr>)) rs);
        Some (alloc h1 (Array ys))
      }
      else Some (alloc h (Array [])))"

text \<open>
  The reducer. \<open>state = None\<close> is the call with \<^verbatim>\<open>undefined\<close>, for which the default
  parameter \<^verbatim>\<open>state = []\<close> creates an empty array.
\<close>

definition reducer ::
  "('e, 'p) utils \<Rightarrow> int \<Rightarrow> 'p heap \<Rightarrow> addr option \<Rightarrow> 'e action \<Rightarrow> ('p heap \<times> addr) option" where
  "reducer U now h0 state0 action =
     (let (h, state) = (case state0 of None \<Rightarrow> alloc h0 (Array []) | Some s \<Rightarrow> (h0, s)) in
      if action_type action = CREATE then
        createRipple U now h state (action_event action) (action_disableSpacebarClick action)
      else if action_type action = RELEASE then releaseRipple now h state
      else if action_type action = CANCEL then cancelRipples h state (action_ease action)
      else if action_type action = ENTERED then enteredRipple now h state (action_ripple action)
      else if action_type action = REMOVE then removeRipple h state (action_ripple action)
      else Some (h, state))"

text \<open>
  \<^verbatim>\<open>useReducer(reducer, [])\<close>: the actions dispatched one after the other, each with the
  clock reading of its own call, every call on the state the previous one returned.
\<close>

fun dispatch_all ::
  "('e, 'p) utils \<Rightarrow> 'p heap \<Rightarrow> addr \<Rightarrow> (int \<times> 'e action) list \<Rightarrow> ('p heap \<times> addr) option" where
  "dispatch_all U h state [] = Some (h, state)"
| "dispatch_all U h state ((now, action) # rest) =
     (case reducer U now h (Some state) action of
        None \<Rightarrow> None
      | Some (h', state') \<Rightarrow> dispatch_all U h' state' rest)"

section \<open>The touch/mouse exclusion\<close>

text \<open>
  The touch/mouse exclusion as a property of a set: every ripple behind a touch ripple is
  a touch ripple.
\<close>

definition touch_exclusion :: "'p RippleState_scheme list \<Rightarrow> bool" where
  "touch_exclusion rs = sorted_wrt (\<lambda>a b. a = ''touch'' \<longrightarrow> b = ''touch'') (map type rs)"

section \<open>Example stores\<close>

text \<open>A ripple as \<^verbatim>\<open>createRippleState\<close> leaves it, created at \<open>t\<close> with modality \<open>ty\<close>.\<close>

definition ex_ripple :: "int \<Rightarrow> string \<Rightarrow> RippleState" where
  "ex_ripple t ty =
     \<lparr>startTime = t, holding = True, entered = False, exiting = False, mounted = True, type = ty\<rparr>"

text \<open>Two mouse ripples, the first one already exiting.\<close>

definition ex_store :: "unit heap" where
  "ex_store =
     [Array [1, 2], Ripple (ex_ripple 1000 ''mouse''\<lparr>exiting := True\<rparr>),
      Ripple (ex_ripple 1200 ''mouse'')]"

text \<open>
  Stand-ins for the helpers of \<^verbatim>\<open>./utils\<close>, for the examples: the extension part of an
  event is its modality, every event is rippleable except a keyboard event while
  \<^verbatim>\<open>disableSpacebarClick\<close> is set, and there is no geometry.
\<close>

definition ex_utils :: "(string, unit) utils" where
  "ex_utils =
     \<lparr>isRippleable = (\<lambda>event disableSpacebarClick.
         \<not> (disableSpacebarClick \<and> RippleEvent.more event = ''keyboard'')),
      getType = RippleEvent.more,
      geometry = (\<lambda>event. ())\<rparr>"

definition ex_event :: "string \<Rightarrow> string RippleEvent_scheme" where
  "ex_event ty = \<lparr>target = 7, currentTarget = 7, \<dots> = ty\<rparr>"

text \<open>Two ripples created in the same millisecond.\<close>

definition twin_store :: "unit heap" where
  "twin_store =
     [Array [1, 2], Ripple (ex_ripple 1000 ''touch''), Ripple (ex_ripple 1000 ''touch'')]"

text \<open>
  A set of one ripple; the object at address 2 is a ripple that is no longer in the set.
\<close>

definition stale_store :: "unit heap" where
  "stale_store =
     [Array [1], Ripple (ex_ripple 1200 ''mouse''), Ripple (ex_ripple 1000 ''mouse'')]"

section \<open>Facts about the store and the array primitives\<close>

lemma ripple_at_extend: "ripple_at h a = Some r \<Longrightarrow> ripple_at (h @ ys) a = Some r"
  by (auto simp: ripple_at_def nth_append split: if_splits)

lemma ripple_at_new: "ripple_at (h @ Ripple r # ys) (length h) = Some r"
  by (simp add: ripple_at_def)

lemma array_at_new: "array_at (h @ Array xs # ys) (length h) = Some xs"
  by (simp add: array_at_def)

lemma ripples_of_map: "ripples_of h xs = Some rs \<longleftrightarrow> map (ripple_at h) xs = map Some rs"
  by (induction xs arbitrary: rs) (auto split: option.splits)

lemma ripples_of_extend: "ripples_of h xs = Some rs \<Longrightarrow> ripples_of (h @ ys) xs = Some rs"
  unfolding ripples_of_map
  by (induction xs arbitrary: rs) (auto simp: ripple_at_extend)

lemma findIndex_None: "findIndex P xs = None \<longleftrightarrow> (\<forall>x\<in>set xs. \<not> P x)"
  by (induction xs) auto

lemma findIndex_first:
  "(\<forall>x\<in>set pre. \<not> P x) \<Longrightarrow> P x \<Longrightarrow> findIndex P (pre @ x # post) = Some (length pre)"
  by (induction pre) auto

lemma findIndex_Some:
  "findIndex P xs = Some i \<Longrightarrow> i < length xs \<and> P (xs ! i) \<and> (\<forall>x\<in>set (take i xs). \<not> P x)"
  by (induction xs arbitrary: i) (auto split: if_splits)

lemma alloc_list_eq: "alloc_list h xs = (h @ xs, [length h..<length h + length xs])"
proof (induction xs arbitrary: h)
  case Nil
  show ?case by simp
next
  case (Cons x xs)
  have "[length h..<length h + length (x # xs)] = length h # [Suc (length h)..<Suc (length h) + length xs]"
    by (simp add: upt_rec)
  with Cons show ?case by (simp add: alloc_def)
qed

lemma release_closed:
  assumes "array_at h state = Some xs" and "ripples_of h xs = Some rs"
  shows "releaseRipple now h state =
    (case findIndex (\<lambda>r. holding r \<and> \<not> exiting r) rs of
       None \<Rightarrow> Some (h, state)
     | Some i \<Rightarrow> Some (h @ [Array (xs[i := Suc (length h)]),
          Ripple ((rs ! i)\<lparr>exiting := (entered (rs ! i) \<or> now - startTime (rs ! i) > 300), holding := False\<rparr>)],
          length h))"
proof (cases "findIndex (\<lambda>r. holding r \<and> \<not> exiting r) rs")
  case None
  with assms show ?thesis by (simp add: releaseRipple_def)
next
  case (Some i)
  from findIndex_Some[OF Some] have "i < length rs" by simp
  moreover from assms(2) have "length rs = length xs"
    unfolding ripples_of_map by (metis length_map)
  ultimately have i: "i < length xs" by simp
  with assms Some show ?thesis
    by (simp add: releaseRipple_def slice_def alloc_def store_index_def array_at_def nth_append Let_def)
qed

lemma entered_closed:
  assumes "array_at h state = Some xs"
  shows "enteredRipple now h state ripple =
    (case findIndex (\<lambda>r. r = ripple) xs of
       None \<Rightarrow> Some (h, state)
     | Some i \<Rightarrow>
        (case ripple_at h ripple of
           None \<Rightarrow> None
         | Some r \<Rightarrow> if exiting r then Some (h, state)
             else Some (h @ [Array (xs[i := Suc (length h)]),
               Ripple (r\<lparr>exiting := (\<not> holding r \<or> now - startTime r > 300), entered := True\<rparr>)],
               length h)))"
proof (cases "findIndex (\<lambda>r. r = ripple) xs")
  case None
  with assms show ?thesis by (simp add: enteredRipple_def)
next
  case (Some i)
  from findIndex_Some[OF Some] have i: "i < length xs" by simp
  with assms Some show ?thesis
    by (simp add: enteredRipple_def slice_def alloc_def store_index_def array_at_def nth_append Let_def
        split: option.splits)
qed

lemma remove_closed:
  assumes "array_at h state = Some xs" and "ripples_of h xs = Some rs" and "ripple_at h ripple = Some r"
  shows "removeRipple h state ripple =
    (case findIndex (\<lambda>x. startTime x = startTime r) rs of
       None \<Rightarrow> Some (h, state)
     | Some i \<Rightarrow> Some (h @ [Array (take i xs @ drop (Suc i) xs)], length h))"
  using assms
  by (simp add: removeRipple_def slice_def alloc_def splice_def array_at_def nth_append
      split: option.splits)

lemma remove_no_ripple:
  assumes "snapshot h state = Some rs" and "ripple_at h ripple = None"
  shows "removeRipple h state ripple = Some (h, state)"
proof -
  from assms(1) obtain xs where "array_at h state = Some xs" "ripples_of h xs = Some rs"
    by (auto simp: snapshot_def bind_eq_Some_conv)
  moreover have "findIndex (\<lambda>r. Some (startTime r) = map_option startTime (ripple_at h ripple)) rs
      = None"
    by (simp add: findIndex_None assms(2))
  ultimately show ?thesis
    by (simp add: removeRipple_def)
qed

lemma cancel_closed:
  assumes "array_at h state = Some xs" and "ripples_of h xs = Some rs"
  shows "cancelRipples h state ease =
    (if ease then
       Some (h @ map (\<lambda>r. Ripple (r\<lparr>exiting := True, mounted := True, holding := False\<rparr>)) rs
               @ [Array [length h..<length h + length rs]], length h + length rs)
     else Some (h @ [Array []], length h))"
  using assms by (simp add: cancelRipples_def alloc_list_eq alloc_def)

lemma create_closed:
  assumes "array_at h state = Some xs" and "ripples_of h xs = Some rs"
  shows "createRipple U now h state event d =
    (if \<not> isRippleable U event d \<or> target event \<noteq> currentTarget event
        \<or> (getType U event \<noteq> ''touch'' \<and> (\<exists>r\<in>set rs. type r = ''touch''))
     then Some (h, state)
     else Some (h @ [Ripple (createRippleState U now event), Array (xs @ [length h])], Suc (length h)))"
  using assms by (auto simp: createRipple_def isBubbled_def alloc_def find_None_iff)

lemma snapshot_split:
  "snapshot h state = Some rs \<longleftrightarrow> (\<exists>xs. array_at h state = Some xs \<and> ripples_of h xs = Some rs)"
  by (simp add: snapshot_def bind_eq_Some_conv)

lemma ripples_of_length: "ripples_of h xs = Some rs \<Longrightarrow> length rs = length xs"
  unfolding ripples_of_map by (metis length_map)

lemma snapshot_replaced:
  assumes "ripples_of h xs = Some rs" and "i < length xs"
  shows "snapshot (h @ [Array (xs[i := Suc (length h)]), Ripple r']) (length h) = Some (rs[i := r'])"
proof -
  let ?h = "h @ [Array (xs[i := Suc (length h)]), Ripple r']"
  have new: "ripple_at ?h (Suc (length h)) = Some r'"
    by (simp add: ripple_at_def nth_append)
  have old: "map (ripple_at ?h) xs = map Some rs"
    using ripples_of_extend[OF assms(1)] by (simp add: ripples_of_map)
  have "map (ripple_at ?h) (xs[i := Suc (length h)]) = map Some (rs[i := r'])"
    by (simp add: map_update old new)
  then show ?thesis
    by (simp add: snapshot_def array_at_new ripples_of_map)
qed

section \<open>RELEASE\<close>

text \<open>
  Claim C1. RELEASE picks the first ripple in set order with \<open>holding\<close> true and
  \<open>exiting\<close> false and replaces it by a copy with \<open>holding = False\<close> and
  \<open>exiting = (entered \<or> now - startTime > 300)\<close>; every other entry keeps its place
  and value. When no ripple has \<open>holding\<close> true and \<open>exiting\<close> false, RELEASE returns the
  store and the state array it was given.
\<close>

theorem release_first_holding:
  assumes "snapshot h state = Some rs"
  shows "((\<forall>x\<in>set rs. \<not> (holding x \<and> \<not> exiting x)) \<longrightarrow>
            releaseRipple now h state = Some (h, state)) \<and>
         (\<forall>pre r post.
            rs = pre @ r # post \<and> (\<forall>x\<in>set pre. \<not> (holding x \<and> \<not> exiting x)) \<and>
            holding r \<and> \<not> exiting r \<longrightarrow>
            (\<exists>h' state'. releaseRipple now h state = Some (h', state') \<and>
               snapshot h' state' =
                 Some (pre @ r\<lparr>holding := False,
                                exiting := (entered r \<or> now - startTime r > 300)\<rparr> # post)))"
proof -
  from assms obtain xs where xs: "array_at h state = Some xs" "ripples_of h xs = Some rs"
    by (auto simp: snapshot_split)
  note closed = release_closed[OF xs, of now]
  have idle: "(\<forall>x\<in>set rs. \<not> (holding x \<and> \<not> exiting x)) \<longrightarrow>
      releaseRipple now h state = Some (h, state)"
  proof
    assume "\<forall>x\<in>set rs. \<not> (holding x \<and> \<not> exiting x)"
    then have "findIndex (\<lambda>r. holding r \<and> \<not> exiting r) rs = None"
      by (simp add: findIndex_None)
    with closed show "releaseRipple now h state = Some (h, state)" by simp
  qed
  have active: "\<exists>h' state'. releaseRipple now h state = Some (h', state') \<and>
      snapshot h' state' =
        Some (pre @ r\<lparr>holding := False, exiting := (entered r \<or> now - startTime r > 300)\<rparr> # post)"
    if rs: "rs = pre @ r # post" and pre: "\<forall>x\<in>set pre. \<not> (holding x \<and> \<not> exiting x)"
      and r: "holding r" "\<not> exiting r" for pre r post
  proof -
    have i: "findIndex (\<lambda>r. holding r \<and> \<not> exiting r) rs = Some (length pre)"
      unfolding rs using pre r by (intro findIndex_first) auto
    have len: "length pre < length xs"
      using ripples_of_length[OF xs(2)] rs by simp
    have at: "rs ! length pre = r" by (simp add: rs)
    let ?r = "r\<lparr>exiting := (entered r \<or> now - startTime r > 300), holding := False\<rparr>"
    have "releaseRipple now h state =
        Some (h @ [Array (xs[length pre := Suc (length h)]), Ripple ?r], length h)"
      using closed i at by simp
    moreover have "snapshot (h @ [Array (xs[length pre := Suc (length h)]), Ripple ?r]) (length h)
        = Some (pre @ ?r # post)"
      using snapshot_replaced[OF xs(2) len, of ?r] by (simp add: rs)
    moreover have "?r = r\<lparr>holding := False, exiting := (entered r \<or> now - startTime r > 300)\<rparr>"
      by simp
    ultimately show ?thesis by metis
  qed
  from idle active show ?thesis by blast
qed

theorem release_first_holding_witness:
  "releaseRipple 1250 ([Array []] :: unit heap) 0 = Some ([Array []], 0) \<and>
   (\<exists>h' state'. releaseRipple 1250 ex_store 0 = Some (h', state') \<and>
      snapshot h' state' =
        Some [ex_ripple 1000 ''mouse''\<lparr>exiting := True\<rparr>,
              ex_ripple 1200 ''mouse''\<lparr>holding := False, exiting := False\<rparr>])"
proof -
  have e: "snapshot ([Array []] :: unit heap) 0 = Some []"
    by (simp add: snapshot_def array_at_def)
  have idle: "releaseRipple 1250 ([Array []] :: unit heap) 0 = Some ([Array []], 0)"
    using release_first_holding[OF e, of 1250] by simp
  have s: "snapshot ex_store 0 =
      Some ([ex_ripple 1000 ''mouse''\<lparr>exiting := True\<rparr>] @ ex_ripple 1200 ''mouse'' # [])"
    by (simp add: snapshot_def array_at_def ripple_at_def ex_store_def)
  have "\<exists>h' state'. releaseRipple 1250 ex_store 0 = Some (h', state') \<and>
     snapshot h' state' =
       Some ([ex_ripple 1000 ''mouse''\<lparr>exiting := True\<rparr>] @
             ex_ripple 1200 ''mouse''\<lparr>holding := False,
               exiting := (entered (ex_ripple 1200 ''mouse'') \<or> 1250 - startTime (ex_ripple 1200 ''mouse'') > 300)\<rparr> # [])"
    using release_first_holding[OF s, of 1250, THEN conjunct2, rule_format,
        of "[ex_ripple 1000 ''mouse''\<lparr>exiting := True\<rparr>]" "ex_ripple 1200 ''mouse''" "[]"]
    by (simp add: ex_ripple_def)
  then have "\<exists>h' state'. releaseRipple 1250 ex_store 0 = Some (h', state') \<and>
      snapshot h' state' =
        Some [ex_ripple 1000 ''mouse''\<lparr>exiting := True\<rparr>,
              ex_ripple 1200 ''mouse''\<lparr>holding := False, exiting := False\<rparr>]"
    by (simp add: ex_ripple_def)
  with idle show ?thesis by (rule conjI)
qed

section \<open>ENTERED\<close>

lemma entered_idle:
  assumes "array_at h state = Some xs"
    and "ripple \<notin> set xs \<or> (\<exists>r. ripple_at h ripple = Some r \<and> exiting r)"
  shows "enteredRipple now h state ripple = Some (h, state)"
proof (cases "findIndex (\<lambda>r. r = ripple) xs")
  case None
  then show ?thesis by (simp add: entered_closed[OF assms(1)])
next
  case (Some i)
  from findIndex_Some[OF Some] have "ripple \<in> set xs" by (metis nth_mem)
  with assms(2) obtain r where "ripple_at h ripple = Some r" "exiting r" by blast
  with Some show ?thesis by (simp add: entered_closed[OF assms(1)])
qed

lemma entered_found:
  assumes "array_at h state = Some (pre @ ripple # post)" and "ripple \<notin> set pre"
    and "ripple_at h ripple = Some r" and "\<not> exiting r"
  shows "enteredRipple now h state ripple =
    Some (h @ [Array (pre @ Suc (length h) # post),
               Ripple (r\<lparr>exiting := (\<not> holding r \<or> now - startTime r > 300), entered := True\<rparr>)],
          length h)"
proof -
  have "findIndex (\<lambda>r. r = ripple) (pre @ ripple # post) = Some (length pre)"
    using assms(2) by (intro findIndex_first) auto
  with assms(3,4) show ?thesis
    by (simp add: entered_closed[OF assms(1)])
qed

text \<open>
  Claim C2. ENTERED(r) returns the store and the state array it was given when the
  reference \<open>r\<close> is not an entry of the array, or when \<open>r.exiting\<close> is true. Otherwise
  the entry \<open>r\<close> (its first occurrence) is replaced, at its place, by a new object: a
  copy of \<open>r\<close> with \<open>entered = True\<close> and
  \<open>exiting = (\<not> holding \<or> now - startTime > 300)\<close>. The other entries stay the same
  references, and no object of the old store changes.
\<close>

theorem entered_replaces_in_place:
  assumes "array_at h state = Some xs" and "ripple_at h ripple = Some r"
  shows "(ripple \<notin> set xs \<or> exiting r \<longrightarrow> enteredRipple now h state ripple = Some (h, state)) \<and>
         (\<forall>pre post. xs = pre @ ripple # post \<and> ripple \<notin> set pre \<and> \<not> exiting r \<longrightarrow>
            (\<exists>h' state' a. enteredRipple now h state ripple = Some (h', state') \<and>
               array_at h' state' = Some (pre @ a # post) \<and>
               ripple_at h' a =
                 Some (r\<lparr>entered := True, exiting := (\<not> holding r \<or> now - startTime r > 300)\<rparr>) \<and>
               length h \<le> a \<and> take (length h) h' = h))"
proof (intro conjI allI impI)
  assume "ripple \<notin> set xs \<or> exiting r"
  with assms show "enteredRipple now h state ripple = Some (h, state)"
    by (intro entered_idle[of h state xs]) auto
next
  fix pre post
  assume a: "xs = pre @ ripple # post \<and> ripple \<notin> set pre \<and> \<not> exiting r"
  let ?r = "r\<lparr>exiting := (\<not> holding r \<or> now - startTime r > 300), entered := True\<rparr>"
  let ?h = "h @ [Array (pre @ Suc (length h) # post), Ripple ?r]"
  have run: "enteredRipple now h state ripple = Some (?h, length h)"
    using entered_found[of h state pre ripple post r now] assms a by simp
  have "array_at ?h (length h) = Some (pre @ Suc (length h) # post)"
    by (rule array_at_new)
  moreover have "ripple_at ?h (Suc (length h)) =
      Some (r\<lparr>entered := True, exiting := (\<not> holding r \<or> now - startTime r > 300)\<rparr>)"
    by (simp add: ripple_at_def nth_append)
  moreover have "take (length h) ?h = h" by simp
  ultimately show "\<exists>h' state' a. enteredRipple now h state ripple = Some (h', state') \<and>
      array_at h' state' = Some (pre @ a # post) \<and>
      ripple_at h' a =
        Some (r\<lparr>entered := True, exiting := (\<not> holding r \<or> now - startTime r > 300)\<rparr>) \<and>
      length h \<le> a \<and> take (length h) h' = h"
    using run by (intro exI[of _ ?h] exI[of _ "length h"] exI[of _ "Suc (length h)"]) simp
qed

theorem entered_replaces_in_place_witness:
  "enteredRipple 1250 stale_store 0 2 = Some (stale_store, 0) \<and>
   enteredRipple 1250 ex_store 0 1 = Some (ex_store, 0) \<and>
   (\<exists>h' state' a. enteredRipple 1250 ex_store 0 2 = Some (h', state') \<and>
      array_at h' state' = Some [1, a] \<and>
      ripple_at h' a = Some (ex_ripple 1200 ''mouse''\<lparr>entered := True, exiting := False\<rparr>) \<and>
      3 \<le> a \<and> take 3 h' = ex_store)"
proof -
  have absent: "enteredRipple 1250 stale_store 0 2 = Some (stale_store, 0)"
  proof -
    have xs: "array_at stale_store 0 = Some [1]"
      by (simp add: array_at_def stale_store_def)
    have r: "ripple_at stale_store 2 = Some (ex_ripple 1000 ''mouse'')"
      by (simp add: ripple_at_def stale_store_def)
    show ?thesis
      using entered_replaces_in_place[OF xs r, of 1250] by simp
  qed
  have xs: "array_at ex_store 0 = Some [1, 2]"
    by (simp add: array_at_def ex_store_def)
  have r1: "ripple_at ex_store 1 = Some (ex_ripple 1000 ''mouse''\<lparr>exiting := True\<rparr>)"
    by (simp add: ripple_at_def ex_store_def)
  have r2: "ripple_at ex_store 2 = Some (ex_ripple 1200 ''mouse'')"
    by (simp add: ripple_at_def ex_store_def)
  have len: "length ex_store = 3" by (simp add: ex_store_def)
  have leaving: "enteredRipple 1250 ex_store 0 1 = Some (ex_store, 0)"
    using entered_replaces_in_place[OF xs r1, of 1250] by simp
  have "\<exists>h' state' a. enteredRipple 1250 ex_store 0 2 = Some (h', state') \<and>
      array_at h' state' = Some [1, a] \<and>
      ripple_at h' a = Some (ex_ripple 1200 ''mouse''\<lparr>entered := True, exiting := False\<rparr>) \<and>
      3 \<le> a \<and> take 3 h' = ex_store"
    using entered_replaces_in_place[OF xs r2, of 1250, THEN conjunct2, rule_format, of "[1]" "[]"]
    by (simp add: ex_ripple_def len)
  with absent leaving show ?thesis by blast
qed

section \<open>The two timing scenarios\<close>

text \<open>
  Claim C7. A set holds a single ripple created at \<open>t0\<close> (holding, not entered, not
  exiting). RELEASE at \<open>t0 + 50\<close> leaves one ripple with \<open>holding = False\<close> and
  \<open>exiting = False\<close>; ENTERED of that updated ripple at \<open>t0 + 60\<close> then leaves one ripple
  with \<open>exiting = True\<close>.
\<close>

theorem release_then_entered:
  assumes "snapshot h state = Some [r]"
    and "holding r" and "\<not> entered r" and "\<not> exiting r" and "startTime r = t0"
  shows "\<exists>h1 s1 a1. releaseRipple (t0 + 50) h state = Some (h1, s1) \<and>
           array_at h1 s1 = Some [a1] \<and>
           ripple_at h1 a1 = Some (r\<lparr>holding := False, exiting := False\<rparr>) \<and>
           (\<exists>h2 s2. enteredRipple (t0 + 60) h1 s1 a1 = Some (h2, s2) \<and>
              snapshot h2 s2 = Some [r\<lparr>holding := False, entered := True, exiting := True\<rparr>])"
proof -
  from assms(1) obtain xs where xs: "array_at h state = Some xs" "ripples_of h xs = Some [r]"
    by (auto simp: snapshot_split)
  from ripples_of_length[OF xs(2)] obtain x where x: "xs = [x]"
    by (cases xs) auto
  let ?r1 = "r\<lparr>holding := False, exiting := False\<rparr>"
  let ?a1 = "Suc (length h)"
  let ?h1 = "h @ [Array [?a1], Ripple ?r1]"
  let ?r2 = "r\<lparr>holding := False, entered := True, exiting := True\<rparr>"
  let ?h2 = "?h1 @ [Array [Suc (length ?h1)], Ripple ?r2]"
  have rel: "releaseRipple (t0 + 50) h state = Some (?h1, length h)"
    using release_closed[OF xs, of "t0 + 50"] assms(2-5) x by simp
  have arr: "array_at ?h1 (length h) = Some ([] @ ?a1 # [])"
    using array_at_new[of h "[?a1]"] by simp
  have rip: "ripple_at ?h1 ?a1 = Some ?r1"
    by (simp add: ripple_at_def nth_append)
  have "enteredRipple (t0 + 60) ?h1 (length h) ?a1 =
      Some (?h1 @ [Array ([] @ Suc (length ?h1) # []),
        Ripple (?r1\<lparr>exiting := (\<not> holding ?r1 \<or> (t0 + 60) - startTime ?r1 > 300), entered := True\<rparr>)],
        length ?h1)"
    by (rule entered_found[OF arr _ rip]) simp_all
  then have ent: "enteredRipple (t0 + 60) ?h1 (length h) ?a1 = Some (?h2, length ?h1)"
    by simp
  have "ripples_of ?h1 [?a1] = Some [?r1]"
    using rip by simp
  from snapshot_replaced[OF this, of 0 ?r2]
  have snap: "snapshot ?h2 (length ?h1) = Some [?r2]" by simp
  from rel arr rip ent snap show ?thesis
    by (intro exI[of _ ?h1] exI[of _ "length h"] exI[of _ ?a1]) auto
qed

theorem release_then_entered_witness:
  "\<exists>h1 s1 a1. releaseRipple 1250 [Array [1], Ripple (ex_ripple 1200 ''touch'')] 0 = Some (h1, s1) \<and>
     array_at h1 s1 = Some [a1] \<and>
     ripple_at h1 a1 = Some (ex_ripple 1200 ''touch''\<lparr>holding := False, exiting := False\<rparr>) \<and>
     (\<exists>h2 s2. enteredRipple 1260 h1 s1 a1 = Some (h2, s2) \<and>
        snapshot h2 s2 =
          Some [ex_ripple 1200 ''touch''\<lparr>holding := False, entered := True, exiting := True\<rparr>])"
proof -
  have s: "snapshot [Array [1], Ripple (ex_ripple 1200 ''touch'')] 0 = Some [ex_ripple 1200 ''touch'']"
    by (simp add: snapshot_def array_at_def ripple_at_def)
  show ?thesis
    using release_then_entered[OF s, of 1200] by (simp add: ex_ripple_def)
qed

text \<open>
  Claim C8. A set holds a ripple created at \<open>t0\<close> that is still held, not entered and not
  exiting. ENTERED of that ripple at \<open>t0 + 350\<close> replaces it by a copy with
  \<open>exiting = True\<close> (and \<open>entered = True\<close>), although \<open>holding\<close> is still true: more than
  300 ms have passed.
\<close>

theorem entered_after_300ms:
  assumes "array_at h state = Some xs" and "ripple \<in> set xs"
    and "ripple_at h ripple = Some r"
    and "holding r" and "\<not> entered r" and "\<not> exiting r" and "startTime r = t0"
  shows "\<exists>h' state' pre post a. enteredRipple (t0 + 350) h state ripple = Some (h', state') \<and>
           xs = pre @ ripple # post \<and> array_at h' state' = Some (pre @ a # post) \<and>
           ripple_at h' a = Some (r\<lparr>entered := True, exiting := True\<rparr>)"
proof -
  from assms(2) obtain pre post where split: "xs = pre @ ripple # post" "ripple \<notin> set pre"
    by (auto dest: split_list_first)
  let ?r = "r\<lparr>exiting := (\<not> holding r \<or> (t0 + 350) - startTime r > 300), entered := True\<rparr>"
  let ?h = "h @ [Array (pre @ Suc (length h) # post), Ripple ?r]"
  have "enteredRipple (t0 + 350) h state ripple = Some (?h, length h)"
    using entered_found[of h state pre ripple post r "t0 + 350"] assms split by simp
  moreover have "array_at ?h (length h) = Some (pre @ Suc (length h) # post)"
    by (rule array_at_new)
  moreover have "ripple_at ?h (Suc (length h)) = Some (r\<lparr>entered := True, exiting := True\<rparr>)"
    using assms(7) by (simp add: ripple_at_def nth_append)
  ultimately show ?thesis
    using split(1) by blast
qed

theorem entered_after_300ms_witness:
  "\<exists>h' state' pre post a. enteredRipple 1550 ex_store 0 2 = Some (h', state') \<and>
     [1, 2] = pre @ 2 # post \<and> array_at h' state' = Some (pre @ a # post) \<and>
     ripple_at h' a = Some (ex_ripple 1200 ''mouse''\<lparr>entered := True, exiting := True\<rparr>)"
proof -
  have xs: "array_at ex_store 0 = Some [1, 2]"
    by (simp add: array_at_def ex_store_def)
  have r: "ripple_at ex_store 2 = Some (ex_ripple 1200 ''mouse'')"
    by (simp add: ripple_at_def ex_store_def)
  show ?thesis
    using entered_after_300ms[OF xs _ r, of 1200] by (simp add: ex_ripple_def)
qed

section \<open>CREATE\<close>

lemma snapshot_appended:
  assumes "ripples_of h xs = Some rs"
  shows "snapshot (h @ [Ripple r, Array (xs @ [length h])]) (Suc (length h)) = Some (rs @ [r])"
proof -
  let ?h = "h @ [Ripple r, Array (xs @ [length h])]"
  have "map (ripple_at ?h) xs = map Some rs"
    using ripples_of_extend[OF assms] by (simp add: ripples_of_map)
  moreover have "ripple_at ?h (length h) = Some r"
    by (rule ripple_at_new)
  moreover have "array_at ?h (Suc (length h)) = Some (xs @ [length h])"
    by (simp add: array_at_def nth_append)
  ultimately show ?thesis
    by (simp add: snapshot_def ripples_of_map)
qed

text \<open>
  Claim C3. CREATE returns the store and the state array it was given when
  \<^verbatim>\<open>isRippleable\<close> rejects the event, when the event bubbled
  (\<open>target \<noteq> currentTarget\<close>), or when the modality of the event is not \<open>''touch''\<close>
  while a ripple of the set has the modality \<open>''touch''\<close>. In exactly the other cases the
  new state array is the old entries, the same references in the same order, followed by
  one new object, the ripple that \<^verbatim>\<open>createRippleState\<close> builds; no object of the old
  store changes.
\<close>

theorem create_appends_or_ignores:
  assumes "array_at h state = Some xs" and "ripples_of h xs = Some rs"
  shows "(\<not> isRippleable U event d \<or> target event \<noteq> currentTarget event \<or>
            (getType U event \<noteq> ''touch'' \<and> (\<exists>r\<in>set rs. type r = ''touch'')) \<longrightarrow>
            createRipple U now h state event d = Some (h, state)) \<and>
         (isRippleable U event d \<and> target event = currentTarget event \<and>
            (getType U event = ''touch'' \<or> (\<forall>r\<in>set rs. type r \<noteq> ''touch'')) \<longrightarrow>
            (\<exists>h' state' a. createRipple U now h state event d = Some (h', state') \<and>
               array_at h' state' = Some (xs @ [a]) \<and> length h \<le> a \<and>
               take (length h) h' = h \<and>
               snapshot h' state' = Some (rs @ [createRippleState U now event])))"
proof (intro conjI impI)
  assume "\<not> isRippleable U event d \<or> target event \<noteq> currentTarget event \<or>
      (getType U event \<noteq> ''touch'' \<and> (\<exists>r\<in>set rs. type r = ''touch''))"
  then show "createRipple U now h state event d = Some (h, state)"
    by (simp add: create_closed[OF assms])
next
  let ?h = "h @ [Ripple (createRippleState U now event), Array (xs @ [length h])]"
  assume "isRippleable U event d \<and> target event = currentTarget event \<and>
      (getType U event = ''touch'' \<or> (\<forall>r\<in>set rs. type r \<noteq> ''touch''))"
  then have "createRipple U now h state event d = Some (?h, Suc (length h))"
    by (auto simp: create_closed[OF assms])
  moreover have "array_at ?h (Suc (length h)) = Some (xs @ [length h])"
    by (simp add: array_at_def nth_append)
  moreover have "take (length h) ?h = h" by simp
  moreover note snapshot_appended[OF assms(2), of "createRippleState U now event"]
  ultimately show "\<exists>h' state' a. createRipple U now h state event d = Some (h', state') \<and>
      array_at h' state' = Some (xs @ [a]) \<and> length h \<le> a \<and> take (length h) h' = h \<and>
      snapshot h' state' = Some (rs @ [createRippleState U now event])"
    by (intro exI[of _ ?h] exI[of _ "Suc (length h)"] exI[of _ "length h"]) simp
qed

theorem create_appends_or_ignores_witness:
  "createRipple ex_utils 1300 twin_store 0 (ex_event ''mouse'') False = Some (twin_store, 0) \<and>
   (\<exists>h' state' a. createRipple ex_utils 1300 twin_store 0 (ex_event ''touch'') False
        = Some (h', state') \<and>
      array_at h' state' = Some [1, 2, a] \<and> 3 \<le> a \<and> take 3 h' = twin_store \<and>
      snapshot h' state' =
        Some [ex_ripple 1000 ''touch'', ex_ripple 1000 ''touch'', ex_ripple 1300 ''touch''])"
proof -
  have xs: "array_at twin_store 0 = Some [1, 2]"
    by (simp add: array_at_def twin_store_def)
  have rs: "ripples_of twin_store [1, 2] = Some [ex_ripple 1000 ''touch'', ex_ripple 1000 ''touch'']"
    by (simp add: ripple_at_def twin_store_def)
  have len: "length twin_store = 3" by (simp add: twin_store_def)
  have "createRipple ex_utils 1300 twin_store 0 (ex_event ''mouse'') False = Some (twin_store, 0)"
    using create_appends_or_ignores[OF xs rs, of ex_utils "ex_event ''mouse''" False 1300]
    by (simp add: ex_utils_def ex_event_def ex_ripple_def)
  moreover have "\<exists>h' state' a. createRipple ex_utils 1300 twin_store 0 (ex_event ''touch'') False
        = Some (h', state') \<and>
      array_at h' state' = Some [1, 2, a] \<and> 3 \<le> a \<and> take 3 h' = twin_store \<and>
      snapshot h' state' =
        Some [ex_ripple 1000 ''touch'', ex_ripple 1000 ''touch'', ex_ripple 1300 ''touch'']"
    using create_appends_or_ignores[OF xs rs, of ex_utils "ex_event ''touch''" False 1300]
    by (simp add: ex_utils_def ex_event_def ex_ripple_def createRippleState_def len)
  ultimately show ?thesis by blast
qed

section \<open>CANCEL\<close>

lemma ripple_at_block:
  "map (ripple_at (h @ map Ripple qs @ ys)) [length h..<length h + length qs] = map Some qs"
  by (rule nth_equalityI) (simp_all add: ripple_at_def nth_append)

lemma snapshot_cancelled:
  "snapshot (h @ map (\<lambda>r. Ripple (f r)) rs @ [Array [length h..<length h + length rs]])
     (length h + length rs) = Some (map f rs)"
proof -
  let ?h = "h @ map (\<lambda>r. Ripple (f r)) rs @ [Array [length h..<length h + length rs]]"
  have "array_at ?h (length h + length rs) = Some [length h..<length h + length rs]"
    by (simp add: array_at_def nth_append)
  moreover have "map (ripple_at ?h) [length h..<length h + length rs] = map Some (map f rs)"
    using ripple_at_block[of h "map f rs" "[Array [length h..<length h + length rs]]"]
    by (simp add: comp_def)
  ultimately show ?thesis
    by (simp add: snapshot_def ripples_of_map)
qed

text \<open>
  Claim C4. CANCEL with \<open>ease = True\<close> returns a set of the same length whose i-th
  ripple is the i-th ripple of the input with \<open>exiting = True\<close>, \<open>holding = False\<close> and
  \<open>mounted = True\<close>; CANCEL with \<open>ease = False\<close> returns the empty set.
\<close>

theorem cancel_marks_or_clears:
  assumes "snapshot h state = Some rs"
  shows "(\<exists>h' state' rs'. cancelRipples h state True = Some (h', state') \<and>
            snapshot h' state' = Some rs' \<and> length rs' = length rs \<and>
            (\<forall>i<length rs. rs' ! i =
               (rs ! i)\<lparr>exiting := True, holding := False, mounted := True\<rparr>)) \<and>
         (\<exists>h' state'. cancelRipples h state False = Some (h', state') \<and>
            snapshot h' state' = Some [])"
proof -
  from assms obtain xs where xs: "array_at h state = Some xs" "ripples_of h xs = Some rs"
    by (auto simp: snapshot_split)
  let ?f = "\<lambda>r. r\<lparr>exiting := True, mounted := True, holding := False\<rparr>"
  let ?h = "h @ map (\<lambda>r. Ripple (?f r)) rs @ [Array [length h..<length h + length rs]]"
  have "cancelRipples h state True = Some (?h, length h + length rs)"
    by (simp add: cancel_closed[OF xs])
  moreover have "snapshot ?h (length h + length rs) = Some (map ?f rs)"
    by (rule snapshot_cancelled)
  moreover have "\<forall>i<length rs. map ?f rs ! i =
      (rs ! i)\<lparr>exiting := True, holding := False, mounted := True\<rparr>"
    by simp
  ultimately have eased: "\<exists>h' state' rs'. cancelRipples h state True = Some (h', state') \<and>
      snapshot h' state' = Some rs' \<and> length rs' = length rs \<and>
      (\<forall>i<length rs. rs' ! i = (rs ! i)\<lparr>exiting := True, holding := False, mounted := True\<rparr>)"
    by (intro exI[of _ ?h] exI[of _ "length h + length rs"] exI[of _ "map ?f rs"]) simp
  have "cancelRipples h state False = Some (h @ [Array []], length h)"
    by (simp add: cancel_closed[OF xs])
  moreover have "snapshot (h @ [Array []]) (length h) = Some []"
    by (simp add: snapshot_def array_at_def)
  ultimately have "\<exists>h' state'. cancelRipples h state False = Some (h', state') \<and>
      snapshot h' state' = Some []"
    by blast
  with eased show ?thesis by blast
qed

theorem cancel_marks_or_clears_witness:
  "(\<exists>h' state' rs'. cancelRipples ex_store 0 True = Some (h', state') \<and>
      snapshot h' state' = Some rs' \<and> length rs' = 2 \<and>
      rs' ! 0 = ex_ripple 1000 ''mouse''\<lparr>exiting := True, holding := False\<rparr> \<and>
      rs' ! 1 = ex_ripple 1200 ''mouse''\<lparr>exiting := True, holding := False\<rparr>) \<and>
   (\<exists>h' state'. cancelRipples ex_store 0 False = Some (h', state') \<and>
      snapshot h' state' = Some [])"
proof -
  have s: "snapshot ex_store 0 =
      Some [ex_ripple 1000 ''mouse''\<lparr>exiting := True\<rparr>, ex_ripple 1200 ''mouse'']"
    by (simp add: snapshot_def array_at_def ripple_at_def ex_store_def)
  let ?rs = "[ex_ripple 1000 ''mouse''\<lparr>exiting := True\<rparr>, ex_ripple 1200 ''mouse'']"
  from cancel_marks_or_clears[OF s] obtain h1 s1 rs' h2 s2 where
    eased: "cancelRipples ex_store 0 True = Some (h1, s1)" "snapshot h1 s1 = Some rs'"
      "length rs' = length ?rs"
      "\<forall>i<length ?rs. rs' ! i = (?rs ! i)\<lparr>exiting := True, holding := False, mounted := True\<rparr>"
    and cleared: "cancelRipples ex_store 0 False = Some (h2, s2)" "snapshot h2 s2 = Some []"
    by blast
  from eased(4) have "rs' ! 0 = (?rs ! 0)\<lparr>exiting := True, holding := False, mounted := True\<rparr>"
    and "rs' ! 1 = (?rs ! 1)\<lparr>exiting := True, holding := False, mounted := True\<rparr>"
    by simp_all
  then have "rs' ! 0 = ex_ripple 1000 ''mouse''\<lparr>exiting := True, holding := False\<rparr>"
    and "rs' ! 1 = ex_ripple 1200 ''mouse''\<lparr>exiting := True, holding := False\<rparr>"
    by (simp_all add: ex_ripple_def)
  with eased(1-3) cleared show ?thesis by simp
qed

section \<open>REMOVE\<close>

lemma map_eq_cut:
  assumes "map f xs = map g rs"
  shows "map f (take i xs @ drop j xs) = map g (take i rs @ drop j rs)"
proof -
  have "map f (take i xs) = map g (take i rs)"
    using assms by (simp only: take_map[symmetric])
  moreover have "map f (drop j xs) = map g (drop j rs)"
    using assms by (simp only: drop_map[symmetric])
  ultimately show ?thesis by simp
qed

lemma snapshot_removed:
  assumes "ripples_of h xs = Some rs"
  shows "snapshot (h @ [Array (take i xs @ drop (Suc i) xs)]) (length h)
    = Some (take i rs @ drop (Suc i) rs)"
proof -
  let ?h = "h @ [Array (take i xs @ drop (Suc i) xs)]"
  have "map (ripple_at ?h) xs = map Some rs"
    using ripples_of_extend[OF assms] by (simp add: ripples_of_map)
  then have "map (ripple_at ?h) (take i xs @ drop (Suc i) xs)
      = map Some (take i rs @ drop (Suc i) rs)"
    by (rule map_eq_cut)
  then show ?thesis
    by (simp add: snapshot_def array_at_new ripples_of_map)
qed

lemma remove_idle:
  assumes "snapshot h state = Some rs" and "ripple_at h ripple = Some r"
    and "\<forall>x\<in>set rs. startTime x \<noteq> startTime r"
  shows "removeRipple h state ripple = Some (h, state)"
proof -
  from assms(1) obtain xs where xs: "array_at h state = Some xs" "ripples_of h xs = Some rs"
    by (auto simp: snapshot_split)
  from assms(3) have "findIndex (\<lambda>x. startTime x = startTime r) rs = None"
    by (simp add: findIndex_None)
  then show ?thesis
    by (simp add: remove_closed[OF xs assms(2)])
qed

lemma remove_found:
  assumes "snapshot h state = Some (pre @ x # post)" and "ripple_at h ripple = Some r"
    and "\<forall>y\<in>set pre. startTime y \<noteq> startTime r" and "startTime x = startTime r"
  shows "\<exists>h'. removeRipple h state ripple = Some (h @ h', length h) \<and>
           snapshot (h @ h') (length h) = Some (pre @ post)"
proof -
  from assms(1) obtain xs where xs: "array_at h state = Some xs"
      "ripples_of h xs = Some (pre @ x # post)"
    by (auto simp: snapshot_split)
  have "findIndex (\<lambda>x. startTime x = startTime r) (pre @ x # post) = Some (length pre)"
    using assms(3,4) by (intro findIndex_first) auto
  then have "removeRipple h state ripple =
      Some (h @ [Array (take (length pre) xs @ drop (Suc (length pre)) xs)], length h)"
    by (simp add: remove_closed[OF xs assms(2)])
  moreover have "snapshot (h @ [Array (take (length pre) xs @ drop (Suc (length pre)) xs)]) (length h)
      = Some (pre @ post)"
    using snapshot_removed[OF xs(2), of "length pre"] by simp
  ultimately show ?thesis by blast
qed

text \<open>
  Claim C5, as amended. REMOVE(r) removes the first entry whose \<open>startTime\<close> equals
  \<open>r.startTime\<close>, keeps the order of the other entries, and returns the store and the
  state array it was given when no entry has that \<open>startTime\<close>. A second REMOVE of the
  same ripple after the first succeeded leaves the set as it is when no other entry of the
  set had the \<open>startTime\<close> of \<open>r\<close>, and so does a REMOVE after CANCEL with \<open>ease = False\<close>
  emptied the set. None of these calls fails.
\<close>

theorem remove_first_by_startTime:
  assumes "snapshot h state = Some rs" and "ripple_at h ripple = Some r"
  shows "((\<forall>x\<in>set rs. startTime x \<noteq> startTime r) \<longrightarrow>
            removeRipple h state ripple = Some (h, state)) \<and>
         (\<forall>pre x post.
            rs = pre @ x # post \<and> (\<forall>y\<in>set pre. startTime y \<noteq> startTime r) \<and>
            startTime x = startTime r \<longrightarrow>
            (\<exists>h' state'. removeRipple h state ripple = Some (h', state') \<and>
               snapshot h' state' = Some (pre @ post) \<and>
               ((\<forall>y\<in>set post. startTime y \<noteq> startTime r) \<longrightarrow>
                  removeRipple h' state' ripple = Some (h', state')))) \<and>
         (\<exists>h' state'. cancelRipples h state False = Some (h', state') \<and>
            snapshot h' state' = Some [] \<and>
            removeRipple h' state' ripple = Some (h', state'))"
proof (intro conjI allI impI)
  assume "\<forall>x\<in>set rs. startTime x \<noteq> startTime r"
  then show "removeRipple h state ripple = Some (h, state)"
    by (rule remove_idle[OF assms])
next
  fix pre x post
  assume a: "rs = pre @ x # post \<and> (\<forall>y\<in>set pre. startTime y \<noteq> startTime r) \<and>
      startTime x = startTime r"
  then have rs: "rs = pre @ x # post" and pre: "\<forall>y\<in>set pre. startTime y \<noteq> startTime r"
    and x: "startTime x = startTime r"
    by simp_all
  from assms(1) have "snapshot h state = Some (pre @ x # post)"
    by (simp only: rs)
  from remove_found[OF this assms(2) pre x] obtain h' where
    first: "removeRipple h state ripple = Some (h @ h', length h)"
      "snapshot (h @ h') (length h) = Some (pre @ post)"
    by blast
  have r': "ripple_at (h @ h') ripple = Some r"
    by (rule ripple_at_extend[OF assms(2)])
  have "removeRipple (h @ h') (length h) ripple = Some (h @ h', length h)"
    if post: "\<forall>y\<in>set post. startTime y \<noteq> startTime r"
  proof (rule remove_idle[OF first(2) r'])
    from pre post show "\<forall>x\<in>set (pre @ post). startTime x \<noteq> startTime r"
      by auto
  qed
  with first show "\<exists>h' state'. removeRipple h state ripple = Some (h', state') \<and>
      snapshot h' state' = Some (pre @ post) \<and>
      ((\<forall>y\<in>set post. startTime y \<noteq> startTime r) \<longrightarrow>
         removeRipple h' state' ripple = Some (h', state'))"
    by (intro exI[of _ "h @ h'"] exI[of _ "length h"]) simp
next
  have c: "cancelRipples h state False = Some (h @ [Array []], length h)"
    by (simp add: cancelRipples_def alloc_def)
  have s: "snapshot (h @ [Array []]) (length h) = Some []"
    by (simp add: snapshot_def array_at_def)
  have "removeRipple (h @ [Array []]) (length h) ripple = Some (h @ [Array []], length h)"
    by (rule remove_idle[OF s ripple_at_extend[OF assms(2)]]) simp
  with c s show "\<exists>h' state'. cancelRipples h state False = Some (h', state') \<and>
      snapshot h' state' = Some [] \<and> removeRipple h' state' ripple = Some (h', state')"
    by (intro exI[of _ "h @ [Array []]"] exI[of _ "length h"]) simp
qed

theorem remove_first_by_startTime_witness:
  "removeRipple stale_store 0 2 = Some (stale_store, 0) \<and>
   (\<exists>h' state'. removeRipple ex_store 0 1 = Some (h', state') \<and>
      snapshot h' state' = Some [ex_ripple 1200 ''mouse''] \<and>
      removeRipple h' state' 1 = Some (h', state')) \<and>
   (\<exists>h' state'. cancelRipples ex_store 0 False = Some (h', state') \<and>
      snapshot h' state' = Some [] \<and> removeRipple h' state' 1 = Some (h', state'))"
proof -
  have stale: "removeRipple stale_store 0 2 = Some (stale_store, 0)"
  proof -
    have s: "snapshot stale_store 0 = Some [ex_ripple 1200 ''mouse'']"
      by (simp add: snapshot_def array_at_def ripple_at_def stale_store_def)
    have r: "ripple_at stale_store 2 = Some (ex_ripple 1000 ''mouse'')"
      by (simp add: ripple_at_def stale_store_def)
    show ?thesis
      using remove_first_by_startTime[OF s r] by (simp add: ex_ripple_def)
  qed
  have s: "snapshot ex_store 0 =
      Some ([] @ ex_ripple 1000 ''mouse''\<lparr>exiting := True\<rparr> # [ex_ripple 1200 ''mouse''])"
    by (simp add: snapshot_def array_at_def ripple_at_def ex_store_def)
  have r: "ripple_at ex_store 1 = Some (ex_ripple 1000 ''mouse''\<lparr>exiting := True\<rparr>)"
    by (simp add: ripple_at_def ex_store_def)
  have twice: "\<exists>h' state'. removeRipple ex_store 0 1 = Some (h', state') \<and>
      snapshot h' state' = Some [ex_ripple 1200 ''mouse''] \<and>
      removeRipple h' state' 1 = Some (h', state')"
    using remove_first_by_startTime[OF s r, THEN conjunct2, THEN conjunct1, rule_format,
        of "[]" "ex_ripple 1000 ''mouse''\<lparr>exiting := True\<rparr>" "[ex_ripple 1200 ''mouse'']"]
    by (simp add: ex_ripple_def)
  have "\<exists>h' state'. cancelRipples ex_store 0 False = Some (h', state') \<and>
      snapshot h' state' = Some [] \<and> removeRipple h' state' 1 = Some (h', state')"
    using remove_first_by_startTime[OF s r, THEN conjunct2, THEN conjunct2] .
  with stale twice show ?thesis by blast
qed

text \<open>
  Claim C5 as the spec states it fails where two entries share a \<open>startTime\<close>: the first
  REMOVE of the ripple at address 1 takes that entry out, the second REMOVE of the same
  ripple takes out the other entry.
\<close>

theorem remove_twice_counterexample:
  "snapshot twin_store 0 = Some [ex_ripple 1000 ''touch'', ex_ripple 1000 ''touch''] \<and>
   removeRipple twin_store 0 1 = Some (twin_store @ [Array [2]], 3) \<and>
   snapshot (twin_store @ [Array [2]]) 3 = Some [ex_ripple 1000 ''touch''] \<and>
   removeRipple (twin_store @ [Array [2]]) 3 1 = Some (twin_store @ [Array [2], Array []], 4) \<and>
   snapshot (twin_store @ [Array [2], Array []]) 4 = Some []"
  by (simp add: removeRipple_def slice_def splice_def alloc_def snapshot_def array_at_def
      ripple_at_def twin_store_def ex_ripple_def)

section \<open>No transition changes its input\<close>

lemma release_frame:
  assumes "array_at h state = Some xs" and "ripples_of h xs = Some rs"
  shows "\<exists>h' state' ys. releaseRipple now h state = Some (h', state') \<and>
           take (length h) h' = h \<and> (h' = h \<and> state' = state \<or> length h \<le> state') \<and>
           array_at h' state' = Some ys \<and>
           (ys = xs \<or> (\<exists>i a. i < length xs \<and> length h \<le> a \<and> ys = xs[i := a]))"
proof (cases "findIndex (\<lambda>r. holding r \<and> \<not> exiting r) rs")
  case None
  then have "releaseRipple now h state = Some (h, state)"
    by (simp add: release_closed[OF assms])
  with assms(1) show ?thesis by simp
next
  case (Some i)
  let ?r = "(rs ! i)\<lparr>exiting := (entered (rs ! i) \<or> now - startTime (rs ! i) > 300),
    holding := False\<rparr>"
  let ?h = "h @ [Array (xs[i := Suc (length h)]), Ripple ?r]"
  from findIndex_Some[OF Some] ripples_of_length[OF assms(2)] have i: "i < length xs"
    by simp
  have "releaseRipple now h state = Some (?h, length h)"
    using Some by (simp add: release_closed[OF assms])
  moreover have "array_at ?h (length h) = Some (xs[i := Suc (length h)])"
    by (rule array_at_new)
  moreover have "\<exists>j a. j < length xs \<and> length h \<le> a \<and> xs[i := Suc (length h)] = xs[j := a]"
    using i by (intro exI[of _ i] exI[of _ "Suc (length h)"]) simp
  ultimately show ?thesis
    by (intro exI[of _ ?h] exI[of _ "length h"] exI[of _ "xs[i := Suc (length h)]"]) simp
qed

lemma entered_frame:
  assumes "array_at h state = Some xs" and "ripple_at h ripple = Some r"
  shows "\<exists>h' state' ys. enteredRipple now h state ripple = Some (h', state') \<and>
           take (length h) h' = h \<and> (h' = h \<and> state' = state \<or> length h \<le> state') \<and>
           array_at h' state' = Some ys \<and>
           (ys = xs \<or> (\<exists>i a. i < length xs \<and> length h \<le> a \<and> ys = xs[i := a]))"
proof (cases "ripple \<in> set xs \<and> \<not> exiting r")
  case False
  with assms have "enteredRipple now h state ripple = Some (h, state)"
    by (intro entered_idle[of h state xs]) auto
  with assms(1) show ?thesis by simp
next
  case True
  then obtain pre post where split: "xs = pre @ ripple # post" "ripple \<notin> set pre"
    by (auto dest: split_list_first)
  let ?r = "r\<lparr>exiting := (\<not> holding r \<or> now - startTime r > 300), entered := True\<rparr>"
  let ?h = "h @ [Array (pre @ Suc (length h) # post), Ripple ?r]"
  have "enteredRipple now h state ripple = Some (?h, length h)"
    using entered_found[of h state pre ripple post r now] assms split True by simp
  moreover have "array_at ?h (length h) = Some (pre @ Suc (length h) # post)"
    by (rule array_at_new)
  moreover have "\<exists>j a. j < length xs \<and> length h \<le> a \<and> pre @ Suc (length h) # post = xs[j := a]"
    using split(1) by (intro exI[of _ "length pre"] exI[of _ "Suc (length h)"]) simp
  ultimately show ?thesis
    by (intro exI[of _ ?h] exI[of _ "length h"] exI[of _ "pre @ Suc (length h) # post"]) simp
qed

lemma remove_frame:
  assumes "array_at h state = Some xs" and "ripples_of h xs = Some rs"
    and "ripple_at h ripple = Some r"
  shows "\<exists>h' state'. removeRipple h state ripple = Some (h', state') \<and>
           take (length h) h' = h \<and> (h' = h \<and> state' = state \<or> length h \<le> state')"
  by (cases "findIndex (\<lambda>x. startTime x = startTime r) rs") (simp_all add: remove_closed[OF assms])

lemma cancel_frame:
  assumes "array_at h state = Some xs" and "ripples_of h xs = Some rs"
  shows "\<exists>h' state'. cancelRipples h state ease = Some (h', state') \<and>
           take (length h) h' = h \<and> length h \<le> state'"
  by (simp add: cancel_closed[OF assms])

text \<open>
  Claim C9. RELEASE, ENTERED, REMOVE and CANCEL never change the array they are given,
  nor any other object that existed before the call: the store after the call starts
  with the store before it. The array they return is the very reference they were given
  (with the store as it was) or a new object. For RELEASE and ENTERED the returned array
  has the entries of the input array, the same references, except at one index at most,
  where it holds a new object.
\<close>

theorem transitions_leave_input_alone:
  assumes "array_at h state = Some xs" and "ripples_of h xs = Some rs"
    and "ripple_at h ripple = Some r"
  shows "(\<exists>h' state' ys. releaseRipple now h state = Some (h', state') \<and>
            take (length h) h' = h \<and> (h' = h \<and> state' = state \<or> length h \<le> state') \<and>
            array_at h' state' = Some ys \<and>
            (ys = xs \<or> (\<exists>i a. i < length xs \<and> length h \<le> a \<and> ys = xs[i := a]))) \<and>
         (\<exists>h' state' ys. enteredRipple now h state ripple = Some (h', state') \<and>
            take (length h) h' = h \<and> (h' = h \<and> state' = state \<or> length h \<le> state') \<and>
            array_at h' state' = Some ys \<and>
            (ys = xs \<or> (\<exists>i a. i < length xs \<and> length h \<le> a \<and> ys = xs[i := a]))) \<and>
         (\<exists>h' state'. removeRipple h state ripple = Some (h', state') \<and>
            take (length h) h' = h \<and> (h' = h \<and> state' = state \<or> length h \<le> state')) \<and>
         (\<exists>h' state'. cancelRipples h state ease = Some (h', state') \<and>
            take (length h) h' = h \<and> length h \<le> state')"
  using release_frame[OF assms(1,2)] entered_frame[OF assms(1,3)] remove_frame[OF assms]
    cancel_frame[OF assms(1,2)]
  by (intro conjI)

theorem transitions_leave_input_alone_witness:
  "(\<exists>h' state' ys. releaseRipple 1250 ex_store 0 = Some (h', state') \<and>
      take 3 h' = ex_store \<and> (h' = ex_store \<and> state' = 0 \<or> 3 \<le> state') \<and>
      array_at h' state' = Some ys \<and>
      (ys = [1, 2] \<or> (\<exists>i a. i < 2 \<and> 3 \<le> a \<and> ys = [1, 2][i := a]))) \<and>
   (\<exists>h' state' ys. enteredRipple 1250 ex_store 0 2 = Some (h', state') \<and>
      take 3 h' = ex_store \<and> (h' = ex_store \<and> state' = 0 \<or> 3 \<le> state') \<and>
      array_at h' state' = Some ys \<and>
      (ys = [1, 2] \<or> (\<exists>i a. i < 2 \<and> 3 \<le> a \<and> ys = [1, 2][i := a]))) \<and>
   (\<exists>h' state'. removeRipple ex_store 0 2 = Some (h', state') \<and>
      take 3 h' = ex_store \<and> (h' = ex_store \<and> state' = 0 \<or> 3 \<le> state')) \<and>
   (\<exists>h' state'. cancelRipples ex_store 0 True = Some (h', state') \<and>
      take 3 h' = ex_store \<and> 3 \<le> state')"
proof -
  have xs: "array_at ex_store 0 = Some [1, 2]"
    by (simp add: array_at_def ex_store_def)
  have rs: "ripples_of ex_store [1, 2] =
      Some [ex_ripple 1000 ''mouse''\<lparr>exiting := True\<rparr>, ex_ripple 1200 ''mouse'']"
    by (simp add: ripple_at_def ex_store_def)
  have r: "ripple_at ex_store 2 = Some (ex_ripple 1200 ''mouse'')"
    by (simp add: ripple_at_def ex_store_def)
  have len: "length ex_store = 3" by (simp add: ex_store_def)
  have len2: "length [1::nat, 2] = 2" by simp
  show ?thesis
    using transitions_leave_input_alone[OF xs rs r, of 1250 True]
    by (simp only: len len2)
qed

section \<open>The reducer\<close>

text \<open>
  Claim C10. For an action whose type is none of CREATE, RELEASE, CANCEL, ENTERED and
  REMOVE the reducer returns the state array it was given, the same reference, and leaves
  the store as it is.
\<close>

theorem unknown_action_ignored:
  assumes "action_type action \<notin> {CREATE, RELEASE, CANCEL, ENTERED, REMOVE}"
  shows "reducer U now h (Some state) action = Some (h, state)"
  using assms by (simp add: reducer_def)

theorem unknown_action_ignored_witness:
  "reducer ex_utils 1250 ex_store (Some 0)
     \<lparr>action_type = ''RESET'', action_event = ex_event ''mouse'',
      action_disableSpacebarClick = False, action_ease = False, action_ripple = 1\<rparr>
   = Some (ex_store, 0)"
  by (rule unknown_action_ignored)
    (simp add: CREATE_def RELEASE_def CANCEL_def ENTERED_def REMOVE_def)

section \<open>Sequences of actions\<close>

lemma excl_same_types: "map type rs' = map type rs \<Longrightarrow> touch_exclusion rs' = touch_exclusion rs"
  by (simp add: touch_exclusion_def)

lemma types_update:
  assumes "i < length rs" and "type r = type (rs ! i)"
  shows "map type (rs[i := r]) = map type rs"
proof -
  have "map type (rs[i := r]) = (map type rs)[i := map type rs ! i]"
    using assms by (simp add: map_update)
  then show ?thesis by (simp only: list_update_id)
qed

lemma excl_cut:
  assumes "touch_exclusion rs"
  shows "touch_exclusion (take i rs @ drop (Suc i) rs)"
proof -
  let ?R = "\<lambda>a b. a = ''touch'' \<longrightarrow> b = ''touch''"
  let ?ts = "map type rs"
  have "sorted_wrt ?R (take i ?ts @ drop i ?ts)"
    using assms by (simp add: touch_exclusion_def)
  then have a: "sorted_wrt ?R (take i ?ts)" and b: "sorted_wrt ?R (drop i ?ts)"
    and c: "\<forall>x\<in>set (take i ?ts). \<forall>y\<in>set (drop i ?ts). ?R x y"
    unfolding sorted_wrt_append by blast+
  have "drop i ?ts = take 1 (drop i ?ts) @ drop (Suc i) ?ts"
    by (metis Suc_eq_plus1_left append_take_drop_id drop_drop add.commute)
  with b have "sorted_wrt ?R (take 1 (drop i ?ts) @ drop (Suc i) ?ts)"
    by simp
  then have b': "sorted_wrt ?R (drop (Suc i) ?ts)"
    unfolding sorted_wrt_append by blast
  have "set (drop (Suc i) ?ts) \<subseteq> set (drop i ?ts)"
    by (rule set_drop_subset_set_drop) simp
  with c have c': "\<forall>x\<in>set (take i ?ts). \<forall>y\<in>set (drop (Suc i) ?ts). ?R x y"
    by blast
  from a b' c' have "sorted_wrt ?R (take i ?ts @ drop (Suc i) ?ts)"
    unfolding sorted_wrt_append by blast
  then show ?thesis
    by (simp add: touch_exclusion_def take_map drop_map)
qed

lemma excl_snoc:
  assumes "touch_exclusion rs"
    and "type r = ''touch'' \<or> (\<forall>x\<in>set rs. type x \<noteq> ''touch'')"
  shows "touch_exclusion (rs @ [r])"
  using assms by (auto simp: touch_exclusion_def sorted_wrt_append)

lemma excl_nth:
  "touch_exclusion rs \<longleftrightarrow>
     (\<forall>i j. i < j \<and> j < length rs \<and> type (rs ! i) = ''touch'' \<longrightarrow> type (rs ! j) = ''touch'')"
proof -
  have "touch_exclusion rs \<longleftrightarrow>
      (\<forall>i j. i < j \<longrightarrow> j < length rs \<longrightarrow>
         (map type rs ! i = ''touch'' \<longrightarrow> map type rs ! j = ''touch''))"
    by (simp add: touch_exclusion_def sorted_wrt_iff_nth_less)
  also have "\<dots> \<longleftrightarrow>
      (\<forall>i j. i < j \<and> j < length rs \<and> type (rs ! i) = ''touch'' \<longrightarrow> type (rs ! j) = ''touch'')"
    by (intro iff_allI) auto
  finally show ?thesis .
qed

lemma ripples_of_nth:
  assumes "ripples_of h xs = Some rs" and "i < length xs"
  shows "ripple_at h (xs ! i) = Some (rs ! i)"
proof -
  from assms(1) have "map (ripple_at h) xs ! i = map Some rs ! i"
    by (simp add: ripples_of_map)
  with assms(2) ripples_of_length[OF assms(1)] show ?thesis by simp
qed

lemma release_excl:
  assumes "snapshot h state = Some rs"
  shows "\<exists>h' state' rs'. releaseRipple now h state = Some (h', state') \<and>
           snapshot h' state' = Some rs' \<and> (touch_exclusion rs \<longrightarrow> touch_exclusion rs')"
proof -
  from assms(1) obtain xs where xs: "array_at h state = Some xs" "ripples_of h xs = Some rs"
    by (auto simp: snapshot_split)
  show ?thesis
  proof (cases "findIndex (\<lambda>r. holding r \<and> \<not> exiting r) rs")
    case None
    then have "releaseRipple now h state = Some (h, state)"
      by (simp add: release_closed[OF xs])
    with assms show ?thesis by blast
  next
    case (Some i)
    let ?r = "(rs ! i)\<lparr>exiting := (entered (rs ! i) \<or> now - startTime (rs ! i) > 300),
      holding := False\<rparr>"
    let ?h = "h @ [Array (xs[i := Suc (length h)]), Ripple ?r]"
    from findIndex_Some[OF Some] have irs: "i < length rs" by simp
    with ripples_of_length[OF xs(2)] have i: "i < length xs" by simp
    have "releaseRipple now h state = Some (?h, length h)"
      using Some by (simp add: release_closed[OF xs])
    moreover have "snapshot ?h (length h) = Some (rs[i := ?r])"
      by (rule snapshot_replaced[OF xs(2) i])
    moreover have "touch_exclusion rs \<longrightarrow> touch_exclusion (rs[i := ?r])"
      using excl_same_types[OF types_update[OF irs, of ?r]] by simp
    ultimately show ?thesis by blast
  qed
qed

lemma entered_excl:
  assumes "snapshot h state = Some rs"
  shows "\<exists>h' state' rs'. enteredRipple now h state ripple = Some (h', state') \<and>
           snapshot h' state' = Some rs' \<and> (touch_exclusion rs \<longrightarrow> touch_exclusion rs')"
proof -
  from assms(1) obtain xs where xs: "array_at h state = Some xs" "ripples_of h xs = Some rs"
    by (auto simp: snapshot_split)
  show ?thesis
  proof (cases "findIndex (\<lambda>r. r = ripple) xs")
    case None
    then have "enteredRipple now h state ripple = Some (h, state)"
      by (simp add: entered_closed[OF xs(1)])
    with assms show ?thesis by blast
  next
    case (Some i)
    from findIndex_Some[OF Some] have i: "i < length xs" and at: "xs ! i = ripple"
      by simp_all
    from i ripples_of_length[OF xs(2)] have irs: "i < length rs" by simp
    from ripples_of_nth[OF xs(2) i] at have r: "ripple_at h ripple = Some (rs ! i)"
      by simp
    show ?thesis
    proof (cases "exiting (rs ! i)")
      case True
      with Some r have "enteredRipple now h state ripple = Some (h, state)"
        by (simp add: entered_closed[OF xs(1)])
      with assms show ?thesis by blast
    next
      case False
      let ?r = "(rs ! i)\<lparr>exiting := (\<not> holding (rs ! i) \<or> now - startTime (rs ! i) > 300),
        entered := True\<rparr>"
      let ?h = "h @ [Array (xs[i := Suc (length h)]), Ripple ?r]"
      have "enteredRipple now h state ripple = Some (?h, length h)"
        using Some r False by (simp add: entered_closed[OF xs(1)])
      moreover have "snapshot ?h (length h) = Some (rs[i := ?r])"
        by (rule snapshot_replaced[OF xs(2) i])
      moreover have "touch_exclusion rs \<longrightarrow> touch_exclusion (rs[i := ?r])"
        using excl_same_types[OF types_update[OF irs, of ?r]] by simp
      ultimately show ?thesis by blast
    qed
  qed
qed

lemma remove_excl:
  assumes "snapshot h state = Some rs"
  shows "\<exists>h' state' rs'. removeRipple h state ripple = Some (h', state') \<and>
           snapshot h' state' = Some rs' \<and> (touch_exclusion rs \<longrightarrow> touch_exclusion rs')"
proof (cases "ripple_at h ripple")
  case None
  from remove_no_ripple[OF assms None] assms show ?thesis by blast
next
  case (Some r)
  from assms(1) obtain xs where xs: "array_at h state = Some xs" "ripples_of h xs = Some rs"
    by (auto simp: snapshot_split)
  show ?thesis
  proof (cases "findIndex (\<lambda>x. startTime x = startTime r) rs")
    case None
    then have "removeRipple h state ripple = Some (h, state)"
      by (simp add: remove_closed[OF xs Some])
    with assms show ?thesis by blast
  next
    case (Some i)
    let ?h = "h @ [Array (take i xs @ drop (Suc i) xs)]"
    have "removeRipple h state ripple = Some (?h, length h)"
      using Some by (simp add: remove_closed[OF xs \<open>ripple_at h ripple = Some r\<close>])
    moreover have "snapshot ?h (length h) = Some (take i rs @ drop (Suc i) rs)"
      by (rule snapshot_removed[OF xs(2)])
    moreover have "touch_exclusion rs \<longrightarrow> touch_exclusion (take i rs @ drop (Suc i) rs)"
      by (simp add: excl_cut)
    ultimately show ?thesis by blast
  qed
qed

lemma cancel_excl:
  assumes "snapshot h state = Some rs"
  shows "\<exists>h' state' rs'. cancelRipples h state ease = Some (h', state') \<and>
           snapshot h' state' = Some rs' \<and> (touch_exclusion rs \<longrightarrow> touch_exclusion rs')"
proof -
  from assms(1) obtain xs where xs: "array_at h state = Some xs" "ripples_of h xs = Some rs"
    by (auto simp: snapshot_split)
  let ?f = "\<lambda>r. r\<lparr>exiting := True, mounted := True, holding := False\<rparr>"
  let ?h = "h @ map (\<lambda>r. Ripple (?f r)) rs @ [Array [length h..<length h + length rs]]"
  show ?thesis
  proof (cases ease)
    case True
    have types: "map type (map ?f rs) = map type rs" by simp
    have "cancelRipples h state ease = Some (?h, length h + length rs)"
      using True by (simp add: cancel_closed[OF xs])
    moreover have "snapshot ?h (length h + length rs) = Some (map ?f rs)"
      by (rule snapshot_cancelled)
    moreover have "touch_exclusion rs \<longrightarrow> touch_exclusion (map ?f rs)"
      using excl_same_types[OF types] by simp
    ultimately show ?thesis by blast
  next
    case False
    then have "cancelRipples h state ease = Some (h @ [Array []], length h)"
      by (simp add: cancel_closed[OF xs])
    moreover have "snapshot (h @ [Array []]) (length h) = Some []"
      by (simp add: snapshot_def array_at_def)
    moreover have "touch_exclusion []" by (simp add: touch_exclusion_def)
    ultimately show ?thesis by blast
  qed
qed

lemma create_excl:
  assumes "snapshot h state = Some rs"
  shows "\<exists>h' state' rs'. createRipple U now h state event d = Some (h', state') \<and>
           snapshot h' state' = Some rs' \<and> (touch_exclusion rs \<longrightarrow> touch_exclusion rs')"
proof -
  from assms(1) obtain xs where xs: "array_at h state = Some xs" "ripples_of h xs = Some rs"
    by (auto simp: snapshot_split)
  let ?skip = "\<not> isRippleable U event d \<or> target event \<noteq> currentTarget event \<or>
    (getType U event \<noteq> ''touch'' \<and> (\<exists>r\<in>set rs. type r = ''touch''))"
  let ?r = "createRippleState U now event"
  let ?h = "h @ [Ripple ?r, Array (xs @ [length h])]"
  show ?thesis
  proof (cases ?skip)
    case True
    then have "createRipple U now h state event d = Some (h, state)"
      by (simp add: create_closed[OF xs])
    with assms show ?thesis by blast
  next
    case False
    then have "createRipple U now h state event d = Some (?h, Suc (length h))"
      by (simp add: create_closed[OF xs])
    moreover have "snapshot ?h (Suc (length h)) = Some (rs @ [?r])"
      by (rule snapshot_appended[OF xs(2)])
    moreover have "touch_exclusion (rs @ [?r])" if "touch_exclusion rs"
    proof (rule excl_snoc[OF that])
      have "type ?r = getType U event"
        by (simp add: createRippleState_def)
      with False show "type ?r = ''touch'' \<or> (\<forall>x\<in>set rs. type x \<noteq> ''touch'')"
        by auto
    qed
    ultimately show ?thesis by blast
  qed
qed

text \<open>
  One call of the reducer on a typed state has a result, whatever the action, and the
  result is again a typed state.
\<close>

lemma reducer_step:
  assumes "snapshot h state = Some rs"
  shows "\<exists>h' state' rs'. reducer U now h (Some state) action = Some (h', state') \<and>
           snapshot h' state' = Some rs' \<and> (touch_exclusion rs \<longrightarrow> touch_exclusion rs')"
proof -
  consider (create) "action_type action = CREATE"
    | (release) "action_type action \<noteq> CREATE" "action_type action = RELEASE"
    | (cancel) "action_type action \<noteq> CREATE" "action_type action \<noteq> RELEASE"
        "action_type action = CANCEL"
    | (entered) "action_type action \<noteq> CREATE" "action_type action \<noteq> RELEASE"
        "action_type action \<noteq> CANCEL" "action_type action = ENTERED"
    | (remove) "action_type action \<noteq> CREATE" "action_type action \<noteq> RELEASE"
        "action_type action \<noteq> CANCEL" "action_type action \<noteq> ENTERED"
        "action_type action = REMOVE"
    | (other) "action_type action \<noteq> CREATE" "action_type action \<noteq> RELEASE"
        "action_type action \<noteq> CANCEL" "action_type action \<noteq> ENTERED"
        "action_type action \<noteq> REMOVE"
    by blast
  then show ?thesis
  proof cases
    case create
    then have "reducer U now h (Some state) action = createRipple U now h state
        (action_event action) (action_disableSpacebarClick action)"
      by (simp add: reducer_def)
    with create_excl[OF assms(1)] show ?thesis by simp
  next
    case release
    then have "reducer U now h (Some state) action = releaseRipple now h state"
      by (simp add: reducer_def)
    with release_excl[OF assms(1)] show ?thesis by simp
  next
    case cancel
    then have "reducer U now h (Some state) action = cancelRipples h state (action_ease action)"
      by (simp add: reducer_def)
    with cancel_excl[OF assms(1)] show ?thesis by simp
  next
    case entered
    then have "reducer U now h (Some state) action
        = enteredRipple now h state (action_ripple action)"
      by (simp add: reducer_def)
    with entered_excl[OF assms(1)] show ?thesis by simp
  next
    case remove
    then have "reducer U now h (Some state) action = removeRipple h state (action_ripple action)"
      by (simp add: reducer_def)
    with remove_excl[OF assms(1)] show ?thesis by simp
  next
    case other
    then have "reducer U now h (Some state) action = Some (h, state)"
      by (simp add: reducer_def)
    with assms(1) show ?thesis by simp
  qed
qed

text \<open>So has every sequence of calls.\<close>

lemma dispatch_all_excl:
  assumes "snapshot h state = Some rs"
  shows "\<exists>h' state' rs'. dispatch_all U h state events = Some (h', state') \<and>
           snapshot h' state' = Some rs' \<and> (touch_exclusion rs \<longrightarrow> touch_exclusion rs')"
  using assms
proof (induction events arbitrary: h state rs)
  case Nil
  then show ?case by simp
next
  case (Cons e events)
  obtain now action where e: "e = (now, action)" by (cases e)
  from reducer_step[OF Cons.prems, of U now action] obtain h1 s1 rs1 where
    step: "reducer U now h (Some state) action = Some (h1, s1)"
    and typed: "snapshot h1 s1 = Some rs1"
    and excl1: "touch_exclusion rs \<longrightarrow> touch_exclusion rs1"
    by blast
  from Cons.IH[OF typed] obtain h' state' rs' where
    rest: "dispatch_all U h1 s1 events = Some (h', state')"
    and typed': "snapshot h' state' = Some rs'"
    and excl': "touch_exclusion rs1 \<longrightarrow> touch_exclusion rs'"
    by blast
  have "dispatch_all U h state (e # events) = Some (h', state')"
    using step rest by (simp add: e)
  moreover from excl1 excl' have "touch_exclusion rs \<longrightarrow> touch_exclusion rs'"
    by blast
  ultimately show ?case
    using typed' by blast
qed

lemma dispatch_all_append:
  "dispatch_all U h state (events @ more_events) =
     (case dispatch_all U h state events of
        None \<Rightarrow> None
      | Some (h', state') \<Rightarrow> dispatch_all U h' state' more_events)"
  by (induction events arbitrary: h state) (auto split: option.splits)

lemma createRippleAction_fields:
  "action_type (createRippleAction event d) = CREATE"
  "action_event (createRippleAction event d) = event"
  "action_disableSpacebarClick (createRippleAction event d) = d"
  by (simp_all add: createRippleAction_def)

text \<open>A CREATE that passes the guards of \<^verbatim>\<open>createRipple\<close> adds its ripple at the end.\<close>

lemma create_accepted:
  assumes "snapshot h state = Some rs"
    and "isRippleable U event d" and "target event = currentTarget event"
    and "getType U event = ''touch'' \<or> (\<forall>r\<in>set rs. type r \<noteq> ''touch'')"
  shows "\<exists>h' state'. reducer U now h (Some state) (createRippleAction event d) = Some (h', state') \<and>
           snapshot h' state' = Some (rs @ [createRippleState U now event])"
proof -
  from assms(1) obtain xs where xs: "array_at h state = Some xs" "ripples_of h xs = Some rs"
    by (auto simp: snapshot_split)
  let ?h = "h @ [Ripple (createRippleState U now event), Array (xs @ [length h])]"
  have "reducer U now h (Some state) (createRippleAction event d)
      = createRipple U now h state event d"
    by (simp add: reducer_def createRippleAction_fields)
  also have "\<dots> = Some (?h, Suc (length h))"
    using assms(2-4) by (auto simp: create_closed[OF xs])
  finally have "reducer U now h (Some state) (createRippleAction event d)
      = Some (?h, Suc (length h))" .
  moreover have "snapshot ?h (Suc (length h)) = Some (rs @ [createRippleState U now event])"
    by (rule snapshot_appended[OF xs(2)])
  ultimately show ?thesis by blast
qed

lemma create_twice:
  assumes "snapshot h state = Some rs"
    and "isRippleable U e1 d1" and "target e1 = currentTarget e1"
    and "isRippleable U e2 d2" and "target e2 = currentTarget e2"
    and "getType U e1 = ''touch'' \<or> (\<forall>r\<in>set rs. type r \<noteq> ''touch'')"
    and "getType U e2 = ''touch'' \<or>
         (getType U e1 \<noteq> ''touch'' \<and> (\<forall>r\<in>set rs. type r \<noteq> ''touch''))"
  shows "\<exists>h' state'. dispatch_all U h state
             [(now, createRippleAction e1 d1), (now, createRippleAction e2 d2)]
           = Some (h', state') \<and>
           snapshot h' state'
           = Some (rs @ [createRippleState U now e1, createRippleState U now e2])"
proof -
  from create_accepted[OF assms(1,2,3,6), of now] obtain h1 s1 where
    first: "reducer U now h (Some state) (createRippleAction e1 d1) = Some (h1, s1)"
    and typed: "snapshot h1 s1 = Some (rs @ [createRippleState U now e1])"
    by blast
  have "type (createRippleState U now e1) = getType U e1"
    by (simp add: createRippleState_def)
  with assms(7) have guard: "getType U e2 = ''touch'' \<or>
      (\<forall>r\<in>set (rs @ [createRippleState U now e1]). type r \<noteq> ''touch'')"
    by auto
  from create_accepted[OF typed assms(4,5) guard, of now] obtain h2 s2 where
    second: "reducer U now h1 (Some s1) (createRippleAction e2 d2) = Some (h2, s2)"
    and typed2: "snapshot h2 s2
      = Some ((rs @ [createRippleState U now e1]) @ [createRippleState U now e2])"
    by blast
  have "dispatch_all U h state [(now, createRippleAction e1 d1), (now, createRippleAction e2 d2)]
      = Some (h2, s2)"
    using first second by simp
  with typed2 show ?thesis by simp
qed

text \<open>
  Claim C6, as amended. Whatever actions are dispatched from the empty set, there is a
  resulting set, and it never holds a touch ripple followed by a ripple of another
  modality (the touch/mouse exclusion). Entries with the same \<open>startTime\<close> are not
  excluded: two further CREATEs of one tick that both pass the guards of
  \<^verbatim>\<open>createRipple\<close> (rippleable, not bubbled, and of touch modality or arriving while no
  touch ripple is in the set) both add an entry, and the two entries have the same
  \<open>startTime\<close>.
\<close>

theorem touch_then_other_never_both:
  "\<exists>h state rs.
     dispatch_all U [Array []] 0 events = Some (h, state) \<and> snapshot h state = Some rs \<and>
     (\<forall>i j. i < j \<and> j < length rs \<and> type (rs ! i) = ''touch'' \<longrightarrow>
        type (rs ! j) = ''touch'') \<and>
     (\<forall>now e1 d1 e2 d2.
        isRippleable U e1 d1 \<and> target e1 = currentTarget e1 \<and>
        isRippleable U e2 d2 \<and> target e2 = currentTarget e2 \<and>
        (getType U e1 = ''touch'' \<or> (\<forall>r\<in>set rs. type r \<noteq> ''touch'')) \<and>
        (getType U e2 = ''touch'' \<or>
           (getType U e1 \<noteq> ''touch'' \<and> (\<forall>r\<in>set rs. type r \<noteq> ''touch''))) \<longrightarrow>
        (\<exists>h' state'.
           dispatch_all U [Array []] 0
             (events @ [(now, createRippleAction e1 d1), (now, createRippleAction e2 d2)])
           = Some (h', state') \<and>
           snapshot h' state'
           = Some (rs @ [createRippleState U now e1, createRippleState U now e2]) \<and>
           startTime (createRippleState U now e1) = startTime (createRippleState U now e2)))"
proof -
  have empty: "snapshot [Array []] 0 = Some []"
    by (simp add: snapshot_def array_at_def)
  have "touch_exclusion []"
    by (simp add: touch_exclusion_def)
  with dispatch_all_excl[OF empty, of U events] obtain h state rs where
    run: "dispatch_all U [Array []] 0 events = Some (h, state)"
    and typed: "snapshot h state = Some rs" and excl: "touch_exclusion rs"
    by blast
  have order: "\<forall>i j. i < j \<and> j < length rs \<and> type (rs ! i) = ''touch'' \<longrightarrow>
      type (rs ! j) = ''touch''"
    using excl by (simp only: excl_nth)
  have twice: "\<exists>h' state'.
      dispatch_all U [Array []] 0
        (events @ [(now, createRippleAction e1 d1), (now, createRippleAction e2 d2)])
      = Some (h', state') \<and>
      snapshot h' state' = Some (rs @ [createRippleState U now e1, createRippleState U now e2]) \<and>
      startTime (createRippleState U now e1) = startTime (createRippleState U now e2)"
    if guards: "isRippleable U e1 d1 \<and> target e1 = currentTarget e1 \<and>
        isRippleable U e2 d2 \<and> target e2 = currentTarget e2 \<and>
        (getType U e1 = ''touch'' \<or> (\<forall>r\<in>set rs. type r \<noteq> ''touch'')) \<and>
        (getType U e2 = ''touch'' \<or>
           (getType U e1 \<noteq> ''touch'' \<and> (\<forall>r\<in>set rs. type r \<noteq> ''touch'')))"
    for now e1 d1 e2 d2
  proof -
    from guards have g: "isRippleable U e1 d1" "target e1 = currentTarget e1"
      "isRippleable U e2 d2" "target e2 = currentTarget e2"
      "getType U e1 = ''touch'' \<or> (\<forall>r\<in>set rs. type r \<noteq> ''touch'')"
      "getType U e2 = ''touch'' \<or>
         (getType U e1 \<noteq> ''touch'' \<and> (\<forall>r\<in>set rs. type r \<noteq> ''touch''))"
      by blast+
    from create_twice[OF typed g, of now] obtain h' state' where
      both: "dispatch_all U h state
          [(now, createRippleAction e1 d1), (now, createRippleAction e2 d2)] = Some (h', state')"
      and typed': "snapshot h' state'
          = Some (rs @ [createRippleState U now e1, createRippleState U now e2])"
      by blast
    have "dispatch_all U [Array []] 0
        (events @ [(now, createRippleAction e1 d1), (now, createRippleAction e2 d2)])
        = Some (h', state')"
      using run both by (simp only: dispatch_all_append option.case prod.case)
    moreover have "startTime (createRippleState U now e1) = startTime (createRippleState U now e2)"
      by (simp add: createRippleState_def)
    ultimately show ?thesis
      using typed' by blast
  qed
  from run typed order twice show ?thesis
    by (intro exI[of _ h] exI[of _ state] exI[of _ rs]) blast
qed

theorem touch_then_other_never_both_witness:
  "\<exists>h state rs.
     dispatch_all ex_utils [Array []] 0
       [(1000, createRippleAction (ex_event ''touch'') False),
        (1000, createRippleAction (ex_event ''mouse'') False),
        (1001, createRippleAction (ex_event ''touch'') False)]
     = Some (h, state) \<and>
     snapshot h state = Some rs \<and>
     rs = [ex_ripple 1000 ''touch'', ex_ripple 1001 ''touch''] \<and>
     type (rs ! 0) = ''touch'' \<and> type (rs ! 1) = ''touch'' \<and>
     (\<exists>h' state'.
        dispatch_all ex_utils [Array []] 0
          ([(1000, createRippleAction (ex_event ''touch'') False),
            (1000, createRippleAction (ex_event ''mouse'') False),
            (1001, createRippleAction (ex_event ''touch'') False)] @
           [(1002, createRippleAction (ex_event ''touch'') False),
            (1002, createRippleAction (ex_event ''touch'') False)])
        = Some (h', state') \<and>
        snapshot h' state' = Some (rs @ [ex_ripple 1002 ''touch'', ex_ripple 1002 ''touch'']))"
proof -
  let ?events = "[(1000, createRippleAction (ex_event ''touch'') False),
        (1000, createRippleAction (ex_event ''mouse'') False),
        (1001, createRippleAction (ex_event ''touch'') False)]"
  let ?H = "[Array [], Ripple (ex_ripple 1000 ''touch''), Array [1],
        Ripple (ex_ripple 1001 ''touch''), Array [1, 3]] :: unit heap"
  from touch_then_other_never_both[of ex_utils ?events] obtain h state rs where
    run: "dispatch_all ex_utils [Array []] 0 ?events = Some (h, state)"
    and typed: "snapshot h state = Some rs"
    and order: "\<forall>i j. i < j \<and> j < length rs \<and> type (rs ! i) = ''touch'' \<longrightarrow>
        type (rs ! j) = ''touch''"
    and twice: "\<forall>now e1 d1 e2 d2.
        isRippleable ex_utils e1 d1 \<and> target e1 = currentTarget e1 \<and>
        isRippleable ex_utils e2 d2 \<and> target e2 = currentTarget e2 \<and>
        (getType ex_utils e1 = ''touch'' \<or> (\<forall>r\<in>set rs. type r \<noteq> ''touch'')) \<and>
        (getType ex_utils e2 = ''touch'' \<or>
           (getType ex_utils e1 \<noteq> ''touch'' \<and> (\<forall>r\<in>set rs. type r \<noteq> ''touch''))) \<longrightarrow>
        (\<exists>h' state'.
           dispatch_all ex_utils [Array []] 0
             (?events @ [(now, createRippleAction e1 d1), (now, createRippleAction e2 d2)])
           = Some (h', state') \<and>
           snapshot h' state'
           = Some (rs @ [createRippleState ex_utils now e1, createRippleState ex_utils now e2]) \<and>
           startTime (createRippleState ex_utils now e1)
           = startTime (createRippleState ex_utils now e2))"
    by (elim exE conjE) (rule that, assumption+)
  have "dispatch_all ex_utils [Array []] 0 ?events = Some (?H, 4)"
    by (simp add: reducer_def createRippleAction_def createRipple_def isBubbled_def
        createRippleState_def alloc_def array_at_def ripple_at_def ex_utils_def ex_event_def
        ex_ripple_def CREATE_def)
  with run have "h = ?H" "state = 4" by simp_all
  moreover have "snapshot ?H 4 = Some [ex_ripple 1000 ''touch'', ex_ripple 1001 ''touch'']"
    by (simp add: snapshot_def array_at_def ripple_at_def)
  ultimately have rs: "rs = [ex_ripple 1000 ''touch'', ex_ripple 1001 ''touch'']"
    using typed by simp
  have first: "type (rs ! 0) = ''touch''"
    by (simp add: rs ex_ripple_def)
  have "(0::nat) < 1 \<and> 1 < length rs \<and> type (rs ! 0) = ''touch''"
    using first by (simp add: rs)
  with order have second: "type (rs ! 1) = ''touch''"
    by blast
  have guards: "isRippleable ex_utils (ex_event ''touch'') False \<and>
      target (ex_event ''touch'') = currentTarget (ex_event ''touch'') \<and>
      isRippleable ex_utils (ex_event ''touch'') False \<and>
      target (ex_event ''touch'') = currentTarget (ex_event ''touch'') \<and>
      (getType ex_utils (ex_event ''touch'') = ''touch'' \<or> (\<forall>r\<in>set rs. type r \<noteq> ''touch'')) \<and>
      (getType ex_utils (ex_event ''touch'') = ''touch'' \<or>
         (getType ex_utils (ex_event ''touch'') \<noteq> ''touch'' \<and>
          (\<forall>r\<in>set rs. type r \<noteq> ''touch'')))"
    by (simp add: ex_utils_def ex_event_def)
  have new: "createRippleState ex_utils 1002 (ex_event ''touch'') = ex_ripple 1002 ''touch''"
    by (simp add: createRippleState_def ex_utils_def ex_event_def ex_ripple_def)
  from twice[rule_format, OF guards, of 1002] obtain h' state' where
    "dispatch_all ex_utils [Array []] 0
       (?events @ [(1002, createRippleAction (ex_event ''touch'') False),
                   (1002, createRippleAction (ex_event ''touch'') False)])
     = Some (h', state')"
    and "snapshot h' state' = Some (rs @ [ex_ripple 1002 ''touch'', ex_ripple 1002 ''touch''])"
    unfolding new by blast
  with run typed rs first second show ?thesis
    by blast
qed

text \<open>
  Claim C6 as the spec states it fails: two mouse events of the same millisecond, both
  rippleable and neither bubbled, leave two entries with the same \<open>startTime\<close>.
\<close>

theorem same_tick_counterexample:
  "dispatch_all ex_utils [Array []] 0
     [(1000, createRippleAction (ex_event ''mouse'') False),
      (1000, createRippleAction (ex_event ''mouse'') False)]
   = Some ([Array [], Ripple (ex_ripple 1000 ''mouse''), Array [1],
            Ripple (ex_ripple 1000 ''mouse''), Array [1, 3]], 4) \<and>
   snapshot [Array [], Ripple (ex_ripple 1000 ''mouse''), Array [1],
             Ripple (ex_ripple 1000 ''mouse''), Array [1, 3]] 4
   = Some [ex_ripple 1000 ''mouse'', ex_ripple 1000 ''mouse''] \<and>
   startTime (ex_ripple 1000 ''mouse'') = 1000"
  by (simp add: reducer_def createRippleAction_def createRipple_def isBubbled_def
      createRippleState_def alloc_def snapshot_def array_at_def ripple_at_def ex_utils_def
      ex_event_def ex_ripple_def CREATE_def)

end
